theory Spec2Isabelle
  imports Complex_Main "HOL-Library.AList" "HOL-Library.Log_Nat"
begin

section \<open>The multi-tier cache manager\<close>

text \<open>
  The development embeds the class \<open>CacheManager\<close> (the backend's \<open>utils/cache\<close> module):
  eight namespaces ("cache types"), each one a bounded map with expiry, and one record of
  hit statistics per namespace. Mutation is explicit state passing: every method takes the
  manager and returns it updated. The clock (\<open>Date.now\<close>, in seconds) is an argument of
  every method that reads it. A JavaScript exception is a value \<open>Inl\<close>. The logger only
  writes messages and is left out, and so are the event handlers the constructor
  registers: every one of them only logs, except the handler of a \<open>get\<close> event, which the
  bounded map never emits.
\<close>

subsection \<open>JavaScript values\<close>

text \<open>
  The values a caller can store. Numbers are the integer-valued ones; arithmetic on them
  rounds to the nearest double (see \<open>double_of_int\<close> below), which changes nothing up to
  \<open>2 ^ 53\<close> in absolute value. \<open>JNaN\<close> is the result of arithmetic on \<open>undefined\<close>.
  \<open>JObj r\<close> is a plain object, known by its reference only: the caches are built with
  \<open>useClones: false\<close> and hand out what was put in.
\<close>

datatype jsval = Undefined | Null | JBool bool | JNum int | JNaN | JStr string | JObj nat

datatype js_error = TypeError

fun truthy :: "jsval \<Rightarrow> bool" where
  "truthy Undefined = False"
| "truthy Null = False"
| "truthy (JBool b) = b"
| "truthy (JNum n) = (n \<noteq> 0)"
| "truthy JNaN = False"
| "truthy (JStr s) = (s \<noteq> [])"
| "truthy (JObj r) = True"

subsection \<open>Doubles\<close>

text \<open>
  A JavaScript number is an IEEE 754 double. A finite double is a rational, and every
  arithmetic operation returns the double nearest to the exact result, the one with the
  even significand on a tie. \<open>to_double\<close> is that rounding for numbers of normal
  magnitude (the significand has 53 bits; subnormal numbers and the overflow to
  \<open>Infinity\<close> are left out): \<open>ilog2 x\<close> is the exponent \<open>k\<close> with \<open>2 ^ k \<le> x < 2 ^ (k + 1)\<close>,
  found from the bit lengths of numerator and denominator, and the spacing of the doubles
  around \<open>x\<close> is \<open>2 ^ (k - 52)\<close>.
\<close>

definition ilog2 :: "rat \<Rightarrow> int" where
  "ilog2 x = (let (a, b) = quotient_of x; d = bitlen a - bitlen b
              in if power_int 2 d \<le> x then d else d - 1)"

definition round_half_even :: "rat \<Rightarrow> int" where
  "round_half_even y =
     (let f = \<lfloor>y\<rfloor>; r = y - of_int f
      in if r < 1 / 2 then f else if 1 / 2 < r then f + 1 else if even f then f else f + 1)"

definition to_double :: "rat \<Rightarrow> rat" where
  "to_double x =
     (if x = 0 then 0
      else let e = ilog2 \<bar>x\<bar> - 52;
               m = round_half_even (\<bar>x\<bar> / power_int 2 e)
           in sgn x * of_int m * power_int 2 e)"

text \<open>The double nearest to an integer is an integer again.\<close>

definition double_of_int :: "int \<Rightarrow> int" where
  "double_of_int i = \<lfloor>to_double (of_int i)\<rfloor>"

subsection \<open>Numbers as text, and \<open>+\<close>\<close>

definition digit_char :: "nat \<Rightarrow> char" where
  "digit_char d = ''0123456789'' ! d"

fun dec_digits :: "nat \<Rightarrow> string" where
  "dec_digits n =
     (if n < 10 then [digit_char n] else dec_digits (n div 10) @ [digit_char (n mod 10)])"

declare dec_digits.simps [simp del]

text \<open>
  \<open>Number.prototype.toFixed\<close> with \<open>f\<close> fraction digits, for a number whose decimal
  rendering needs no exponent: take the integer \<open>n\<close> nearest to \<open>x * 10 ^ f\<close> (the larger
  one on a tie), write its digits, pad with zeros to \<open>f + 1\<close> digits, and put the point
  before the last \<open>f\<close>. The argument is the value of the double, a rational, and \<open>n\<close> is
  found from it exactly, as the standard asks.
\<close>

definition toFixed :: "rat \<Rightarrow> nat \<Rightarrow> string" where
  "toFixed x f =
     (let s = (if x < 0 then ''-'' else []);
          n = nat \<lfloor>\<bar>x\<bar> * 10 ^ f + 1 / 2\<rfloor>;
          m = dec_digits n;
          m' = (if f \<noteq> 0 \<and> length m \<le> f
                then replicate (f + 1 - length m) (CHR ''0'') @ m else m)
      in if f = 0 then s @ m'
         else s @ take (length m' - f) m' @ ''.'' @ drop (length m' - f) m')"

text \<open>The shape of a number with two fraction digits: the digits of \<open>n div 100\<close>, a
  point, and the two last digits of \<open>n\<close>; \<open>n\<close> counts hundredths.\<close>

definition fixed2 :: "nat \<Rightarrow> string" where
  "fixed2 n = dec_digits (n div 100) @ ''.'' @ [digit_char (n div 10 mod 10), digit_char (n mod 10)]"

text \<open>\<open>current + 1\<close>: string concatenation when the left operand is a string or an
  object, addition of numbers otherwise; the sum of two numbers is rounded to a double.\<close>

fun js_plus_one :: "jsval \<Rightarrow> jsval" where
  "js_plus_one Undefined = JNaN"
| "js_plus_one Null = JNum 1"
| "js_plus_one (JBool b) = JNum (if b then 2 else 1)"
| "js_plus_one (JNum n) = JNum (double_of_int (n + 1))"
| "js_plus_one JNaN = JNaN"
| "js_plus_one (JStr s) = JStr (s @ ''1'')"
| "js_plus_one (JObj r) = JStr ''[object Object]1''"

text \<open>\<open>key.includes(pattern)\<close>: the pattern occurs in the key as a contiguous run.\<close>

fun starts_with :: "string \<Rightarrow> string \<Rightarrow> bool" where
  "starts_with s [] = True"
| "starts_with [] (p # ps) = False"
| "starts_with (c # cs) (p # ps) = (c = p \<and> starts_with cs ps)"

fun js_includes :: "string \<Rightarrow> string \<Rightarrow> bool" where
  "js_includes [] pat = (pat = [])"
| "js_includes (c # cs) pat = (starts_with (c # cs) pat \<or> js_includes cs pat)"

text \<open>
  Reading a property of an object literal by a computed name, \<open>obj[name]\<close>: the object's
  own property if it has one, else what \<open>Object.prototype\<close> has under that name (a
  function, or for \<open>__proto__\<close> the prototype itself: truthy in every case), else
  \<open>undefined\<close>.
\<close>

datatype 'a property = Own 'a | Inherited | Absent

definition object_prototype_names :: "string list" where
  "object_prototype_names =
     [''constructor'', ''__defineGetter__'', ''__defineSetter__'', ''hasOwnProperty'',
      ''__lookupGetter__'', ''__lookupSetter__'', ''isPrototypeOf'',
      ''propertyIsEnumerable'', ''toString'', ''valueOf'', ''__proto__'',
      ''toLocaleString'']"

definition get_property :: "(string \<times> 'a) list \<Rightarrow> string \<Rightarrow> 'a property" where
  "get_property obj name =
     (case map_of obj name of
        Some v \<Rightarrow> Own v
      | None \<Rightarrow> if name \<in> set object_prototype_names then Inherited else Absent)"

subsection \<open>The bounded map with expiry\<close>

text \<open>
  Each namespace is a \<open>NodeCache\<close> of the node-cache package, which is not part of the
  repository. Its options are the ones the constructor of \<open>CacheManager\<close> passes:
  \<open>stdTTL\<close> (the default time to live, in seconds), \<open>checkperiod\<close> (the sweep interval)
  and \<open>maxKeys\<close> (the capacity). Its methods are modelled from the specification of the
  expiring map. The entries are kept in insertion order, the order \<open>keys()\<close> lists them in.
\<close>

record cache_entry =
  entry_value :: jsval
  expiresAt :: int

record node_cache =
  entries :: "(string \<times> cache_entry) list"
  stdTTL :: int
  checkperiod :: int
  maxKeys :: nat
  sweeping :: bool

definition NodeCache :: "int \<Rightarrow> int \<Rightarrow> nat \<Rightarrow> node_cache" where
  "NodeCache ttl period cap =
     \<lparr>entries = [], stdTTL = ttl, checkperiod = period, maxKeys = cap, sweeping = True\<rparr>"

text \<open>Modelled from the spec: \<open>NodeCache.set\<close> is not in the repository. The expiring
  map's \<open>set(key, value, ttl?) -> bool\<close> inserts or replaces the entry with
  \<open>expiresAt = now + (ttl ?? defaultTTL)\<close>; inserting a new key when
  \<open>size == maxEntries\<close> fails and returns false.\<close>

definition nc_set :: "int \<Rightarrow> node_cache \<Rightarrow> string \<Rightarrow> jsval \<Rightarrow> int option \<Rightarrow> bool \<times> node_cache" where
  "nc_set now c key v ttl =
     (if map_of (entries c) key = None \<and> length (entries c) = maxKeys c then (False, c)
      else (True, c\<lparr>entries := AList.update key
              \<lparr>entry_value = v,
               expiresAt = now + (case ttl of None \<Rightarrow> stdTTL c | Some t \<Rightarrow> t)\<rparr>
              (entries c)\<rparr>))"

text \<open>Modelled from the spec: \<open>NodeCache.get\<close> is not in the repository. The expiring
  map's \<open>get(key) -> value or absent\<close>: a missing key, or one with \<open>now >= expiresAt\<close>,
  is absent, and an expired entry is removed. It counts no hit and no miss.\<close>

definition nc_get :: "int \<Rightarrow> node_cache \<Rightarrow> string \<Rightarrow> jsval option \<times> node_cache" where
  "nc_get now c key =
     (case map_of (entries c) key of
        None \<Rightarrow> (None, c)
      | Some e \<Rightarrow>
          if now \<ge> expiresAt e then (None, c\<lparr>entries := AList.delete key (entries c)\<rparr>)
          else (Some (entry_value e), c))"

text \<open>Modelled from the spec: \<open>NodeCache.del\<close> is not in the repository. The expiring
  map's \<open>delete(key) -> count_removed (0 or 1)\<close>.\<close>

definition nc_del :: "node_cache \<Rightarrow> string \<Rightarrow> nat \<times> node_cache" where
  "nc_del c key =
     (if map_of (entries c) key = None then (0, c)
      else (1, c\<lparr>entries := AList.delete key (entries c)\<rparr>))"

text \<open>Modelled from the spec: \<open>NodeCache.keys\<close> is not in the repository. The expiring
  map's \<open>keys()\<close> is a snapshot of the keys.\<close>

definition nc_keys :: "node_cache \<Rightarrow> string list" where
  "nc_keys c = map fst (entries c)"

text \<open>Modelled from the spec: \<open>NodeCache.close\<close> is not in the repository. On shutdown
  the sweep timer of an expiring map is stopped and all its entries are released.\<close>

definition nc_close :: "node_cache \<Rightarrow> node_cache" where
  "nc_close c = c\<lparr>entries := [], sweeping := False\<rparr>"

subsection \<open>The manager\<close>

record hit_stats =
  hits :: nat
  misses :: nat
  sets :: nat
  deletes :: nat
  flushes :: nat

datatype stat_type = Hits | Misses | Sets | Deletes | Flushes

record cache_manager =
  caches :: "(string \<times> node_cache) list"
  hitStats :: "(string \<times> hit_stats) list"

fun increment :: "stat_type \<Rightarrow> hit_stats \<Rightarrow> hit_stats" where
  "increment Hits h = h\<lparr>hits := hits h + 1\<rparr>"
| "increment Misses h = h\<lparr>misses := misses h + 1\<rparr>"
| "increment Sets h = h\<lparr>sets := sets h + 1\<rparr>"
| "increment Deletes h = h\<lparr>deletes := deletes h + 1\<rparr>"
| "increment Flushes h = h\<lparr>flushes := flushes h + 1\<rparr>"

definition setupStatsTracking :: "cache_manager \<Rightarrow> cache_manager" where
  "setupStatsTracking s =
     s\<lparr>hitStats := foldl (\<lambda>hs cacheType. AList.update cacheType
           \<lparr>hits = 0, misses = 0, sets = 0, deletes = 0, flushes = 0\<rparr> hs)
         (hitStats s) (map fst (caches s))\<rparr>"

definition constructor :: cache_manager where
  "constructor = setupStatsTracking
     \<lparr>caches =
        [(''players'', NodeCache 300 60 10000),
         (''leaderboards'', NodeCache 600 120 100),
         (''statistics'', NodeCache 900 180 200),
         (''achievements'', NodeCache 1800 300 1000),
         (''sessions'', NodeCache 180 30 5000),
         (''api'', NodeCache 120 30 2000),
         (''blockchain'', NodeCache 1200 240 500),
         (''rateLimit'', NodeCache 3600 600 50000)],
      hitStats = []\<rparr>"

text \<open>\<open>recordHit\<close> is only reached with the name of a cache, which \<open>setupStatsTracking\<close>
  has given a statistics record; for any other name it changes nothing in the manager.\<close>

definition recordHit :: "cache_manager \<Rightarrow> string \<Rightarrow> stat_type \<Rightarrow> cache_manager" where
  "recordHit s cacheType type =
     (if map_of (hitStats s) cacheType = None then s
      else s\<lparr>hitStats := AList.map_entry cacheType (increment type) (hitStats s)\<rparr>)"

text \<open>A \<open>NodeCache\<close> is mutated in place: the manager keeps the changed cache under the
  same name.\<close>

definition store_cache :: "cache_manager \<Rightarrow> string \<Rightarrow> node_cache \<Rightarrow> cache_manager" where
  "store_cache s cacheType c = s\<lparr>caches := AList.map_entry cacheType (\<lambda>_. c) (caches s)\<rparr>"

text \<open>
  The guard \<open>if (!this.caches[cacheType])\<close> lets an inherited property through, and the
  method call on it (\<open>.get\<close>, \<open>.set\<close>, \<open>.del\<close>, \<open>.keys\<close> are not functions there, and
  \<open>Object.keys()\<close> without an argument throws too) raises a \<open>TypeError\<close>.
\<close>

definition cm_get :: "cache_manager \<Rightarrow> int \<Rightarrow> string \<Rightarrow> string \<Rightarrow> (js_error + jsval) \<times> cache_manager" where
  "cm_get s now cacheType key =
     (case get_property (caches s) cacheType of
        Absent \<Rightarrow> (Inr Null, s)
      | Inherited \<Rightarrow> (Inl TypeError, s)
      | Own c \<Rightarrow>
          (let (r, c') = nc_get now c key;
               s' = store_cache s cacheType c';
               v = (case r of None \<Rightarrow> Undefined | Some x \<Rightarrow> x)
           in if v = Undefined then (Inr Null, recordHit s' cacheType Misses)
              else (Inr v, recordHit s' cacheType Hits)))"

text \<open>\<open>ttl\<close> is \<open>None\<close> when the argument is left out or \<open>null\<close>; a \<open>ttl\<close> of 0 is
  falsy and the cache's own default is used.\<close>

definition cm_set :: "cache_manager \<Rightarrow> int \<Rightarrow> string \<Rightarrow> string \<Rightarrow> jsval \<Rightarrow> int option \<Rightarrow> (js_error + jsval) \<times> cache_manager" where
  "cm_set s now cacheType key v ttl =
     (case get_property (caches s) cacheType of
        Absent \<Rightarrow> (Inr (JBool False), s)
      | Inherited \<Rightarrow> (Inl TypeError, s)
      | Own c \<Rightarrow>
          (let (success, c') =
                 (if ttl \<noteq> None \<and> ttl \<noteq> Some 0 then nc_set now c key v ttl
                  else nc_set now c key v None);
               s' = store_cache s cacheType c'
           in if success then (Inr (JBool success), recordHit s' cacheType Sets)
              else (Inr (JBool success), s')))"

definition cm_del :: "cache_manager \<Rightarrow> string \<Rightarrow> string \<Rightarrow> (js_error + jsval) \<times> cache_manager" where
  "cm_del s cacheType key =
     (case get_property (caches s) cacheType of
        Absent \<Rightarrow> (Inr (JNum 0), s)
      | Inherited \<Rightarrow> (Inl TypeError, s)
      | Own c \<Rightarrow>
          (let (deleted, c') = nc_del c key;
               s' = store_cache s cacheType c'
           in if deleted > 0 then (Inr (JNum (int deleted)), recordHit s' cacheType Deletes)
              else (Inr (JNum (int deleted)), s')))"

definition getRateLimit :: "cache_manager \<Rightarrow> int \<Rightarrow> string \<Rightarrow> (js_error + jsval) \<times> cache_manager" where
  "getRateLimit s now identifier = cm_get s now ''rateLimit'' (''rate:'' @ identifier)"

definition setRateLimit :: "cache_manager \<Rightarrow> int \<Rightarrow> string \<Rightarrow> jsval \<Rightarrow> int option \<Rightarrow> (js_error + jsval) \<times> cache_manager" where
  "setRateLimit s now identifier count ttl =
     cm_set s now ''rateLimit'' (''rate:'' @ identifier) count ttl"

text \<open>\<open>incrementRateLimit(identifier, ttl = 3600)\<close>: the default applies when the
  argument is left out.\<close>

definition incrementRateLimit :: "cache_manager \<Rightarrow> int \<Rightarrow> string \<Rightarrow> int option \<Rightarrow> (js_error + jsval) \<times> cache_manager" where
  "incrementRateLimit s now identifier ttl =
     (let ttl' = (case ttl of None \<Rightarrow> Some 3600 | Some t \<Rightarrow> Some t)
      in case getRateLimit s now identifier of
           (Inl e, s') \<Rightarrow> (Inl e, s')
         | (Inr r, s') \<Rightarrow>
             (let current = (if truthy r then r else JNum 0)
              in setRateLimit s' now identifier (js_plus_one current) ttl'))"

definition invalidatePattern :: "cache_manager \<Rightarrow> string \<Rightarrow> string \<Rightarrow> (js_error + unit) \<times> cache_manager" where
  "invalidatePattern s cacheType pattern =
     (case get_property (caches s) cacheType of
        Absent \<Rightarrow> (Inr (), s)
      | Inherited \<Rightarrow> (Inl TypeError, s)
      | Own c \<Rightarrow>
          (let keys = nc_keys c;
               matchingKeys = filter (\<lambda>key. js_includes key pattern) keys;
               c' = foldl (\<lambda>c key. snd (nc_del c key)) c matchingKeys
           in (Inr (), store_cache s cacheType c')))"

definition shutdown :: "cache_manager \<Rightarrow> cache_manager" where
  "shutdown s = s\<lparr>caches := map (\<lambda>(cacheType, c). (cacheType, nc_close c)) (caches s)\<rparr>"

text \<open>
  \<open>getStats\<close> visits the caches in the order of \<open>Object.keys(this.caches)\<close>. Reading
  \<open>.hits\<close> of a missing statistics record throws. The field \<open>stats\<close> of the report (the
  package's own counters) is left out. In \<open>hits / (hits + misses) * 100\<close> the sum, the
  quotient and the product are each rounded to a double, in that order; the counters
  themselves are natural numbers, which up to \<open>2 ^ 53\<close> are doubles as they stand.
\<close>

record cache_stats =
  keys :: nat
  stats_hitStats :: hit_stats
  hitRate :: string

definition hitRate_of :: "hit_stats \<Rightarrow> string" where
  "hitRate_of h =
     (if hits h > 0
      then toFixed (to_double (to_double (rat_of_nat (hits h) /
                      to_double (rat_of_nat (hits h + misses h))) * 100)) 2 @ ''%''
      else ''0%'')"

fun getStats_loop :: "cache_manager \<Rightarrow> (string \<times> node_cache) list \<Rightarrow> js_error + (string \<times> cache_stats) list" where
  "getStats_loop s [] = Inr []"
| "getStats_loop s ((cacheType, cache) # rest) =
     (case map_of (hitStats s) cacheType of
        None \<Rightarrow> Inl TypeError
      | Some h \<Rightarrow>
          (case getStats_loop s rest of
             Inl e \<Rightarrow> Inl e
           | Inr stats \<Rightarrow>
               Inr ((cacheType,
                     \<lparr>keys = length (nc_keys cache), stats_hitStats = h,
                      hitRate = hitRate_of h\<rparr>) # stats)))"

definition getStats :: "cache_manager \<Rightarrow> js_error + (string \<times> cache_stats) list" where
  "getStats s = getStats_loop s (caches s)"

subsection \<open>A full namespace\<close>

text \<open>The manager after \<open>n\<close> calls of \<open>set\<close> on the leaderboards, each with a new key;
  at \<open>n = 100\<close> the namespace holds as many entries as its \<open>maxKeys\<close>.\<close>

definition fill_key :: "nat \<Rightarrow> string" where
  "fill_key i = replicate (Suc i) (CHR ''k'')"

primrec fill_leaderboards :: "nat \<Rightarrow> cache_manager" where
  "fill_leaderboards 0 = constructor"
| "fill_leaderboards (Suc n) =
     snd (cm_set (fill_leaderboards n) 0 ''leaderboards'' (fill_key n) (JNum (int n)) None)"

subsection \<open>Three hits and one miss\<close>

text \<open>The manager after one \<open>set\<close> on the players, three reads of that key and one read
  of a key that was never set.\<close>

definition three_hits_one_miss :: cache_manager where
  "three_hits_one_miss =
     (let s1 = snd (cm_set constructor 0 ''players'' ''player:w1'' (JNum 1) None);
          s2 = snd (cm_get s1 1 ''players'' ''player:w1'');
          s3 = snd (cm_get s2 2 ''players'' ''player:w1'');
          s4 = snd (cm_get s3 3 ''players'' ''player:w1'');
          s5 = snd (cm_get s4 4 ''players'' ''player:w2'')
      in s5)"

subsection \<open>Increments one after the other\<close>

text \<open>\<open>incrementRateLimit\<close> is synchronous: calls from several request handlers run one
  after the other, each to completion. This is \<open>k\<close> such calls at one time \<open>now\<close>.\<close>

primrec increment_times :: "nat \<Rightarrow> cache_manager \<Rightarrow> int \<Rightarrow> string \<Rightarrow> cache_manager" where
  "increment_times 0 s now identifier = s"
| "increment_times (Suc k) s now identifier =
     snd (incrementRateLimit (increment_times k s now identifier) now identifier None)"

section \<open>Properties\<close>

subsection \<open>Bookkeeping lemmas\<close>

lemma map_entry_same: "map_of xs k = Some v \<Longrightarrow> AList.map_entry k (\<lambda>_. v) xs = xs"
  by (induction xs) (auto split: if_splits)

lemma store_cache_same: "map_of (caches s) ct = Some c \<Longrightarrow> store_cache s ct c = s"
  by (simp add: store_cache_def map_entry_same)

lemma hitStats_store_cache [simp]: "hitStats (store_cache s ct c) = hitStats s"
  by (simp add: store_cache_def)

lemma caches_recordHit [simp]: "caches (recordHit s ct t) = caches s"
  by (simp add: recordHit_def)

lemma map_of_store_cache:
  "map_of (caches (store_cache s ct c)) n =
     (if n = ct \<and> map_of (caches s) ct \<noteq> None then Some c else map_of (caches s) n)"
  by (auto simp: store_cache_def AList.map_of_map_entry split: option.splits)

lemma get_property_Own: "map_of obj name = Some v \<Longrightarrow> get_property obj name = Own v"
  by (simp add: get_property_def)

lemma get_property_Absent:
  "map_of obj name = None \<Longrightarrow> name \<notin> set object_prototype_names \<Longrightarrow>
   get_property obj name = Absent"
  by (simp add: get_property_def)

lemma caches_constructor:
  "caches constructor =
     [(''players'', NodeCache 300 60 10000),
      (''leaderboards'', NodeCache 600 120 100),
      (''statistics'', NodeCache 900 180 200),
      (''achievements'', NodeCache 1800 300 1000),
      (''sessions'', NodeCache 180 30 5000),
      (''api'', NodeCache 120 30 2000),
      (''blockchain'', NodeCache 1200 240 500),
      (''rateLimit'', NodeCache 3600 600 50000)]"
  by (simp add: constructor_def setupStatsTracking_def)

lemma hitStats_constructor:
  "hitStats constructor =
     map (\<lambda>n. (n, \<lparr>hits = 0, misses = 0, sets = 0, deletes = 0, flushes = 0\<rparr>))
       [''players'', ''leaderboards'', ''statistics'', ''achievements'', ''sessions'',
        ''api'', ''blockchain'', ''rateLimit'']"
  by (simp add: constructor_def setupStatsTracking_def)

text \<open>The three generic operations on a configured namespace, with the lookup resolved.\<close>

lemma cm_set_Own:
  assumes "map_of (caches s) cacheType = Some c"
  shows "cm_set s now cacheType key v ttl =
     (let r = nc_set now c key v (if ttl = Some 0 then None else ttl);
          s' = store_cache s cacheType (snd r)
      in (Inr (JBool (fst r)), if fst r then recordHit s' cacheType Sets else s'))"
  using assms
  by (cases ttl) (auto simp: cm_set_def get_property_Own Let_def split: prod.splits)

lemma cm_get_Own:
  assumes "map_of (caches s) cacheType = Some c"
  shows "cm_get s now cacheType key =
     (let r = nc_get now c key;
          s' = store_cache s cacheType (snd r)
      in if fst r = None \<or> fst r = Some Undefined
         then (Inr Null, recordHit s' cacheType Misses)
         else (Inr (the (fst r)), recordHit s' cacheType Hits))"
  using assms
  by (auto simp: cm_get_def get_property_Own Let_def split: prod.splits option.splits)

lemma cm_del_Own:
  assumes "map_of (caches s) cacheType = Some c"
  shows "cm_del s cacheType key =
     (let r = nc_del c key;
          s' = store_cache s cacheType (snd r)
      in (Inr (JNum (int (fst r))), if fst r > 0 then recordHit s' cacheType Deletes else s'))"
  using assms
  by (auto simp: cm_del_def get_property_Own Let_def split: prod.splits)

lemma nc_get_after_nc_set:
  assumes "fst (nc_set now c key v t)"
    and "now' < now + (case t of None \<Rightarrow> stdTTL c | Some x \<Rightarrow> x)"
  shows "nc_get now' (snd (nc_set now c key v t)) key = (Some v, snd (nc_set now c key v t))"
  using assms by (auto simp: nc_set_def nc_get_def AList.update_conv' split: if_splits)

lemma update_fresh: "map_of al k = None \<Longrightarrow> AList.update k v al = al @ [(k, v)]"
  by (induction al) (auto split: if_splits)

lemma fill_key_inj: "fill_key i = fill_key j \<longleftrightarrow> i = j"
  by (metis fill_key_def length_replicate nat.inject)

text \<open>After \<open>n\<close> insertions, \<open>n\<close> at most the capacity, the leaderboards hold \<open>n\<close> entries.\<close>

lemma fill_leaderboards_cache:
  "n \<le> 100 \<Longrightarrow>
   map_of (caches (fill_leaderboards n)) ''leaderboards'' =
     Some ((NodeCache 600 120 100)
       \<lparr>entries := map (\<lambda>i. (fill_key i, \<lparr>entry_value = JNum (int i), expiresAt = 600\<rparr>))
          [0..<n]\<rparr>)"
proof (induction n)
  case 0
  then show ?case by (simp add: caches_constructor NodeCache_def)
next
  case (Suc n)
  let ?al = "map (\<lambda>i. (fill_key i, \<lparr>entry_value = JNum (int i), expiresAt = 600\<rparr>)) [0..<n]"
  have fresh: "map_of ?al (fill_key n) = None"
    by (auto simp: map_of_eq_None_iff fill_key_inj image_iff)
  from Suc have IH: "map_of (caches (fill_leaderboards n)) ''leaderboards'' =
      Some ((NodeCache 600 120 100)\<lparr>entries := ?al\<rparr>)"
    by simp
  show ?case
    using Suc.prems fresh
    by (simp add: cm_set_Own [OF IH] Let_def nc_set_def map_of_store_cache IH
        update_fresh NodeCache_def)
qed

lemma cm_set_full:
  assumes "map_of (caches s) cacheType = Some c"
    and "map_of (entries c) key = None"
    and "length (entries c) = maxKeys c"
  shows "cm_set s now cacheType key v ttl = (Inr (JBool False), s)"
  using assms by (simp add: cm_set_Own nc_set_def store_cache_same)

lemma cm_get_value:
  assumes "map_of (caches s) cacheType = Some c"
  shows "fst (cm_get s now cacheType key) =
     (case map_of (entries c) key of
        None \<Rightarrow> Inr Null
      | Some e \<Rightarrow> if expiresAt e \<le> now \<or> entry_value e = Undefined then Inr Null
                  else Inr (entry_value e))"
  using assms by (auto simp: cm_get_Own nc_get_def Let_def split: option.splits)

lemma full_leaderboards:
  "\<exists>c. map_of (caches (fill_leaderboards 100)) ''leaderboards'' = Some c \<and>
       map_of (entries c) ''leaderboard:score:10'' = None \<and>
       length (entries c) = maxKeys c"
proof -
  let ?al = "map (\<lambda>i. (fill_key i, \<lparr>entry_value = JNum (int i), expiresAt = 600\<rparr>)) [0..<100]"
  let ?c = "(NodeCache 600 120 100)\<lparr>entries := ?al\<rparr>"
  have 1: "map_of (caches (fill_leaderboards 100)) ''leaderboards'' = Some ?c"
    by (rule fill_leaderboards_cache) simp
  have 2: "map_of (entries ?c) ''leaderboard:score:10'' = None"
    by (auto simp: map_of_eq_None_iff fill_key_def image_iff)
  have 3: "length (entries ?c) = maxKeys ?c"
    by (simp add: NodeCache_def)
  from 1 2 3 show ?thesis by blast
qed

lemma starts_with_iff: "starts_with s p \<longleftrightarrow> (\<exists>suf. s = p @ suf)"
  by (induction s p rule: starts_with.induct) auto

lemma js_includes_iff: "js_includes key pat \<longleftrightarrow> (\<exists>pre suf. key = pre @ pat @ suf)"
proof (induction key)
  case Nil
  then show ?case by auto
next
  case (Cons c cs)
  show ?case
  proof
    assume "js_includes (c # cs) pat"
    then consider "starts_with (c # cs) pat" | "js_includes cs pat" by auto
    then show "\<exists>pre suf. c # cs = pre @ pat @ suf"
    proof cases
      case 1
      then obtain suf where "c # cs = pat @ suf" by (auto simp: starts_with_iff)
      then have "c # cs = [] @ pat @ suf" by simp
      then show ?thesis by blast
    next
      case 2
      then obtain pre suf where "cs = pre @ pat @ suf" using Cons.IH by blast
      then have "c # cs = (c # pre) @ pat @ suf" by simp
      then show ?thesis by blast
    qed
  next
    assume "\<exists>pre suf. c # cs = pre @ pat @ suf"
    then obtain pre suf where eq: "c # cs = pre @ pat @ suf" by blast
    show "js_includes (c # cs) pat"
    proof (cases pre)
      case Nil
      with eq have "starts_with (c # cs) pat" by (auto simp: starts_with_iff)
      then show ?thesis by simp
    next
      case (Cons a pre')
      with eq have "cs = pre' @ pat @ suf" by simp
      then have "js_includes cs pat" using Cons.IH by blast
      then show ?thesis by simp
    qed
  qed
qed

lemma nc_del_snd: "snd (nc_del c key) = c\<lparr>entries := AList.delete key (entries c)\<rparr>"
  by (simp add: nc_del_def map_of_eq_None_iff)

lemma foldl_nc_del:
  "foldl (\<lambda>c key. snd (nc_del c key)) c ks =
     c\<lparr>entries := filter (\<lambda>p. fst p \<notin> set ks) (entries c)\<rparr>"
proof (induction ks arbitrary: c)
  case Nil
  then show ?case by simp
next
  case (Cons k ks)
  have f: "filter (\<lambda>p. fst p \<notin> set ks) (AList.delete k (entries c)) =
        filter (\<lambda>p. fst p \<notin> set (k # ks)) (entries c)"
    by (auto simp: AList.delete_eq intro: filter_cong)
  have "foldl (\<lambda>c key. snd (nc_del c key)) c (k # ks) =
        foldl (\<lambda>c key. snd (nc_del c key)) (snd (nc_del c k)) ks"
    by simp
  also have "\<dots> = (snd (nc_del c k))
      \<lparr>entries := filter (\<lambda>p. fst p \<notin> set ks) (entries (snd (nc_del c k)))\<rparr>"
    by (rule Cons.IH)
  also have "\<dots> = c\<lparr>entries := filter (\<lambda>p. fst p \<notin> set (k # ks)) (entries c)\<rparr>"
    unfolding nc_del_snd using f by simp
  finally show ?case .
qed

lemma invalidatePattern_Own:
  assumes "map_of (caches s) cacheType = Some c"
  shows "invalidatePattern s cacheType pattern =
     (Inr (), store_cache s cacheType
        (c\<lparr>entries := filter (\<lambda>p. \<not> js_includes (fst p) pattern) (entries c)\<rparr>))"
proof -
  have "filter (\<lambda>p. fst p \<notin> set (filter (\<lambda>key. js_includes key pattern) (nc_keys c))) (entries c)
      = filter (\<lambda>p. \<not> js_includes (fst p) pattern) (entries c)"
    by (rule filter_cong) (auto simp: nc_keys_def)
  then show ?thesis
    using assms by (simp add: invalidatePattern_def get_property_Own Let_def foldl_nc_del)
qed

lemma map_of_filter_fst:
  "map_of (filter (\<lambda>p. P (fst p)) al) k = (if P k then map_of al k else None)"
  by (induction al) auto

lemma cm_get_state:
  assumes "map_of (caches s) cacheType = Some c"
  shows "map_of (caches (snd (cm_get s now cacheType key))) cacheType = Some (snd (nc_get now c key))"
  using assms by (simp add: cm_get_Own Let_def map_of_store_cache)

lemma cm_set_state:
  assumes "map_of (caches s) cacheType = Some c"
  shows "map_of (caches (snd (cm_set s now cacheType key v ttl))) cacheType =
     Some (snd (nc_set now c key v (if ttl = Some 0 then None else ttl)))"
  using assms by (simp add: cm_set_Own Let_def map_of_store_cache)

lemma cm_get_Inr:
  assumes "map_of (caches s) cacheType = Some c"
  shows "fst (cm_get s now cacheType key) =
     Inr (case fst (nc_get now c key) of None \<Rightarrow> Null | Some Undefined \<Rightarrow> Null | Some v \<Rightarrow> v)"
  using assms by (auto simp: cm_get_Own Let_def split: option.splits jsval.splits)

lemma nc_get_length: "length (entries (snd (nc_get now c key))) \<le> length (entries c)"
  by (auto simp: nc_get_def AList.length_delete_le split: option.splits)

lemma nc_get_maxKeys [simp]: "maxKeys (snd (nc_get now c key)) = maxKeys c"
  by (auto simp: nc_get_def split: option.splits)

lemma nc_set_stored:
  "fst (nc_set now c key v t) \<Longrightarrow>
   \<exists>e. map_of (entries (snd (nc_set now c key v t))) key = Some e \<and> entry_value e = v"
  by (auto simp: nc_set_def AList.update_conv' split: if_splits)

lemma nc_set_room: "length (entries c) < maxKeys c \<Longrightarrow> fst (nc_set now c key v t)"
  by (simp add: nc_set_def)

lemma incrementRateLimit_result:
  assumes "map_of (caches s) ''rateLimit'' = Some c"
    and "fst (nc_get now c (''rate:'' @ identifier)) = None \<and> n = 0 \<or>
         fst (nc_get now c (''rate:'' @ identifier)) = Some (JNum n)"
    and "r = nc_set now (snd (nc_get now c (''rate:'' @ identifier))) (''rate:'' @ identifier)
           (JNum (double_of_int (n + 1)))
           (case ttl of None \<Rightarrow> Some 3600 | Some t \<Rightarrow> if t = 0 then None else Some t)"
  shows "fst (incrementRateLimit s now identifier ttl) = Inr (JBool (fst r))"
    and "map_of (caches (snd (incrementRateLimit s now identifier ttl))) ''rateLimit'' =
           Some (snd r)"
proof -
  let ?key = "''rate:'' @ identifier"
  let ?g = "cm_get s now ''rateLimit'' ?key"
  let ?c1 = "snd (nc_get now c ?key)"
  let ?t = "case ttl of None \<Rightarrow> Some 3600 | Some t \<Rightarrow> Some t"
  have g: "fst ?g = Inr (if n = 0 then Null else JNum n) \<or> fst ?g = Inr (JNum n)"
    using assms(2) by (auto simp: cm_get_Inr [OF assms(1)])
  obtain x s1 where g1: "cm_get s now ''rateLimit'' ?key = (Inr x, s1)"
    and cur: "js_plus_one (if truthy x then x else JNum 0) = JNum (double_of_int (n + 1))"
    using g by (cases ?g) auto
  have look1: "map_of (caches s1) ''rateLimit'' = Some ?c1"
    using cm_get_state [OF assms(1), of now ?key] unfolding g1 by simp
  have inc: "incrementRateLimit s now identifier ttl =
      cm_set s1 now ''rateLimit'' ?key (JNum (double_of_int (n + 1))) ?t"
    unfolding incrementRateLimit_def getRateLimit_def setRateLimit_def g1
    by (simp add: Let_def cur)
  have t: "(if ?t = Some 0 then None else ?t) =
      (case ttl of None \<Rightarrow> Some 3600 | Some t \<Rightarrow> if t = 0 then None else Some t)"
    by (simp split: option.splits)
  show "fst (incrementRateLimit s now identifier ttl) = Inr (JBool (fst r))"
    unfolding inc assms(3) t [symmetric] by (simp add: cm_set_Own [OF look1] Let_def)
  show "map_of (caches (snd (incrementRateLimit s now identifier ttl))) ''rateLimit'' =
      Some (snd r)"
    unfolding inc assms(3) t [symmetric] by (rule cm_set_state [OF look1])
qed

subsection \<open>Rounding to a double\<close>

lemma round_half_even_close: "\<bar>of_int (round_half_even y) - y\<bar> \<le> 1 / 2"
proof -
  have "of_int \<lfloor>y\<rfloor> \<le> y" "y < of_int \<lfloor>y\<rfloor> + 1"
    by linarith+
  then show ?thesis
    unfolding round_half_even_def Let_def by (auto simp: abs_le_iff)
qed

lemma round_half_even_of_int [simp]: "round_half_even (of_int z) = z"
  by (simp add: round_half_even_def)

lemma round_half_even_half:
  "round_half_even (of_int z + 1 / 2) = (if even z then z else z + 1)"
proof -
  have "\<lfloor>of_int z + (1 / 2 :: rat)\<rfloor> = z"
    by (rule floor_unique) simp_all
  then show ?thesis
    by (simp add: round_half_even_def)
qed

lemma pow2_of_nat: "0 \<le> k \<Longrightarrow> power_int (2::rat) k = 2 ^ nat k"
  by (simp add: power_int_def)

lemma pow2_less_cancel: "power_int (2::rat) a < power_int 2 b \<Longrightarrow> a < b"
  using power_int_increasing [of b a "2::rat"] by (cases "a < b") auto

lemma ilog2_bounds:
  assumes "0 < x"
  shows "power_int 2 (ilog2 x) \<le> x" and "x < power_int 2 (ilog2 x + 1)"
proof -
  obtain a b where q: "quotient_of x = (a, b)" by (cases "quotient_of x")
  have b: "0 < b" using q by (rule quotient_of_denom_pos)
  have x: "x = of_int a / of_int b" using q by (rule quotient_of_div)
  have a: "0 < a" using assms b unfolding x by (simp add: zero_less_divide_iff)
  define la lb where "la = bitlen a" and "lb = bitlen b"
  have la1: "1 \<le> la" and lb1: "1 \<le> lb"
    using a b bitlen_eq_zero_iff [of a] bitlen_eq_zero_iff [of b] bitlen_nonneg [of a]
      bitlen_nonneg [of b] unfolding la_def lb_def by linarith+
  have "2 ^ nat (la - 1) \<le> a" "a < 2 ^ nat la" "2 ^ nat (lb - 1) \<le> b" "b < 2 ^ nat lb"
    using bitlen_bounds [OF a] bitlen_bounds [OF b] unfolding la_def lb_def by simp_all
  then have "rat_of_int (2 ^ nat (la - 1)) \<le> of_int a" "rat_of_int a < of_int (2 ^ nat la)"
    "rat_of_int (2 ^ nat (lb - 1)) \<le> of_int b" "rat_of_int b < of_int (2 ^ nat lb)"
    by (simp_all only: of_int_le_iff of_int_less_iff)
  then have A: "power_int 2 (la - 1) \<le> rat_of_int a" "rat_of_int a < power_int 2 la"
    and B: "power_int 2 (lb - 1) \<le> rat_of_int b" "rat_of_int b < power_int 2 lb"
    using la1 lb1 by (simp_all add: pow2_of_nat)
  have a': "0 < rat_of_int a" and b': "0 < rat_of_int b" using a b by simp_all
  have pos: "0 < power_int (2::rat) k" for k by simp
  have "power_int 2 (la - 1 - lb) = power_int 2 (la - 1) / power_int (2::rat) lb"
    by (rule power_int_diff) simp
  also have "\<dots> \<le> rat_of_int a / power_int 2 lb"
    using A(1) pos by (simp add: divide_right_mono)
  also have "\<dots> < rat_of_int a / rat_of_int b"
    using B(2) a' b' by (simp add: divide_strict_left_mono)
  finally have lo: "power_int 2 (la - lb - 1) < x"
    unfolding x by (simp add: algebra_simps)
  have bp: "0 < rat_of_int b * power_int 2 (lb - 1)"
    using b' pos [of "lb - 1"] by (rule mult_pos_pos)
  have a0: "0 \<le> rat_of_int a"
    using a' by simp
  have "rat_of_int a / rat_of_int b \<le> rat_of_int a / power_int 2 (lb - 1)"
    using B(1) a0 bp by (rule divide_left_mono)
  also have "\<dots> < power_int 2 la / power_int 2 (lb - 1)"
    using A(2) pos by (simp add: divide_strict_right_mono)
  also have "\<dots> = power_int 2 (la - (lb - 1))"
    by (rule power_int_diff [symmetric]) simp
  finally have hi: "x < power_int 2 (la - lb + 1)"
    unfolding x by (simp add: algebra_simps)
  have il: "ilog2 x = (if power_int 2 (la - lb) \<le> x then la - lb else la - lb - 1)"
    by (simp add: ilog2_def q la_def lb_def)
  show "power_int 2 (ilog2 x) \<le> x"
    using lo by (simp add: il)
  show "x < power_int 2 (ilog2 x + 1)"
    using hi by (auto simp: il not_le)
qed

lemma ilog2_unique:
  assumes "power_int 2 k \<le> x" and "x < power_int 2 (k + 1)"
  shows "ilog2 x = k"
proof -
  have pos: "0 < x"
    using assms(1) zero_less_power_int [of "2::rat" k] by linarith
  note b = ilog2_bounds [OF pos]
  have "power_int (2::rat) (ilog2 x) < power_int 2 (k + 1)"
    using b(1) assms(2) by linarith
  then have 1: "ilog2 x < k + 1" by (rule pow2_less_cancel)
  have "power_int (2::rat) k < power_int 2 (ilog2 x + 1)"
    using b(2) assms(1) by linarith
  then have 2: "k < ilog2 x + 1" by (rule pow2_less_cancel)
  from 1 2 show ?thesis by linarith
qed

lemma to_double_pos:
  assumes "0 < x"
  shows "to_double x =
     of_int (round_half_even (x / power_int 2 (ilog2 x - 52))) * power_int 2 (ilog2 x - 52)"
  using assms by (simp add: to_double_def Let_def)

lemma to_double_minus: "to_double (- x) = - to_double x"
  by (simp add: to_double_def Let_def)

lemma to_double_0 [simp]: "to_double 0 = 0"
  by (simp add: to_double_def)

lemma to_double_error:
  assumes "0 < x"
  shows "\<bar>to_double x - x\<bar> \<le> x / 2 ^ 53"
proof -
  define k where "k = ilog2 x"
  define P where "P = power_int (2::rat) (k - 52)"
  define m where "m = round_half_even (x / P)"
  have P: "0 < P" by (simp add: P_def)
  have td: "to_double x = of_int m * P"
    using to_double_pos [OF assms] by (simp add: m_def P_def k_def)
  have "to_double x - x = (of_int m - x / P) * P"
    using P by (simp add: td field_simps)
  then have "\<bar>to_double x - x\<bar> = \<bar>of_int m - x / P\<bar> * P"
    using P by (simp add: abs_mult)
  also have "\<dots> \<le> (1 / 2) * P"
    using round_half_even_close [of "x / P"] P unfolding m_def
    by (intro mult_right_mono) simp_all
  finally have 1: "\<bar>to_double x - x\<bar> \<le> P / 2" by simp
  have "P = power_int 2 k / power_int 2 52"
    unfolding P_def by (rule power_int_diff) simp
  then have "P = power_int 2 k / 2 ^ 52" by simp
  moreover have "power_int 2 k \<le> x"
    unfolding k_def using assms by (rule ilog2_bounds)
  ultimately have "P \<le> x / 2 ^ 52"
    by (simp add: divide_right_mono)
  then have "P / 2 \<le> x / 2 ^ 53" by simp
  with 1 show ?thesis by linarith
qed

lemma to_double_positive:
  assumes "0 < x"
  shows "0 < to_double x"
proof -
  have "x / 2 ^ 53 < x" using assms by simp
  with to_double_error [OF assms] show ?thesis by linarith
qed

lemma to_double_exact:
  assumes "power_int 2 k \<le> x" and "x < power_int 2 (k + 1)"
    and "x / power_int 2 (k - 52) = of_int z"
  shows "to_double x = x"
proof -
  have pos: "0 < x"
    using assms(1) zero_less_power_int [of "2::rat" k] by linarith
  have k: "ilog2 x = k" using assms(1,2) by (rule ilog2_unique)
  have P: "power_int (2::rat) (k - 52) \<noteq> 0" by simp
  have "to_double x = of_int z * power_int 2 (k - 52)"
    by (simp add: to_double_pos [OF pos] k assms(3))
  also have "\<dots> = x"
    unfolding assms(3) [symmetric] using P by simp
  finally show ?thesis .
qed

lemma to_double_of_nat_pos:
  assumes "0 < i" and "i \<le> 2 ^ 53"
  shows "to_double (rat_of_int i) = of_int i"
proof -
  define x where "x = rat_of_int i"
  define k where "k = ilog2 x"
  have pos: "0 < x" using assms(1) by (simp add: x_def)
  have one: "1 \<le> x" using assms(1) by (simp add: x_def)
  have le: "x \<le> 2 ^ 53"
    using assms(2) unfolding x_def by (metis of_int_le_iff of_int_numeral of_int_power)
  have lo: "power_int 2 k \<le> x" and hi: "x < power_int 2 (k + 1)"
    unfolding k_def using pos by (rule ilog2_bounds)+
  have k0: "0 \<le> k"
  proof (rule ccontr)
    assume "\<not> 0 \<le> k"
    then have "k + 1 \<le> 0" by simp
    then have "power_int (2::rat) (k + 1) \<le> power_int 2 0"
      by (rule power_int_increasing) simp
    with hi one show False by simp
  qed
  have k53: "k \<le> 53"
  proof (rule ccontr)
    assume "\<not> k \<le> 53"
    then have "53 < k" by simp
    then have "power_int (2::rat) 53 < power_int 2 k"
      by (rule power_int_strict_increasing) simp
    with lo le show False by simp
  qed
  show ?thesis
  proof (cases "k \<le> 52")
    case True
    have "power_int (2::rat) (k - 52) = power_int 2 (- (52 - k))" by simp
    also have "\<dots> = inverse (power_int 2 (52 - k))" by (rule power_int_minus)
    also have "power_int (2::rat) (52 - k) = 2 ^ nat (52 - k)"
      using True by (simp add: pow2_of_nat)
    finally have "x / power_int 2 (k - 52) = x * 2 ^ nat (52 - k)"
      by (simp add: field_simps)
    also have "\<dots> = of_int (i * 2 ^ nat (52 - k))"
      by (simp add: x_def)
    finally show ?thesis
      using to_double_exact [OF lo hi] unfolding x_def by blast
  next
    case False
    with k53 have k: "k = 53" by simp
    have "2 ^ 53 \<le> x" using lo by (simp add: k)
    with le have x: "x = 2 ^ 53" by simp
    have "x / power_int 2 (k - 52) = of_int (2 ^ 52)"
      by (simp add: x k)
    then show ?thesis
      using to_double_exact [OF lo hi] unfolding x_def by blast
  qed
qed

lemma double_of_int_exact:
  assumes "\<bar>i\<bar> \<le> 2 ^ 53"
  shows "double_of_int i = i"
proof -
  consider "i = 0" | "0 < i" | "i < 0" by linarith
  then show ?thesis
  proof cases
    case 1
    then show ?thesis by (simp add: double_of_int_def)
  next
    case 2
    then show ?thesis
      using assms by (simp add: double_of_int_def to_double_of_nat_pos)
  next
    case 3
    then have "to_double (rat_of_int (- i)) = of_int (- i)"
      using assms by (intro to_double_of_nat_pos) simp_all
    then have "to_double (rat_of_int i) = of_int i"
      using to_double_minus [of "rat_of_int i"] by simp
    then show ?thesis by (simp add: double_of_int_def)
  qed
qed

lemma double_of_int_2_53_plus_1: "double_of_int (2 ^ 53 + 1) = 2 ^ 53"
proof -
  let ?x = "rat_of_int (2 ^ 53 + 1)"
  have lo: "power_int 2 53 \<le> ?x" and hi: "?x < power_int 2 (53 + 1)"
    by simp_all
  have k: "ilog2 ?x = 53" using lo hi by (rule ilog2_unique)
  have y: "?x / power_int 2 (53 - 52) = of_int (2 ^ 52) + 1 / 2"
    by simp
  have "to_double ?x = of_int (round_half_even (of_int (2 ^ 52) + 1 / 2)) * power_int 2 (53 - 52)"
    using to_double_pos [of ?x] unfolding k y by simp
  also have "\<dots> = of_int (2 ^ 53)"
    unfolding round_half_even_half by simp
  finally show ?thesis
    unfolding double_of_int_def by (simp only: floor_of_int)
qed

lemma round_half_even_unique:
  assumes "of_int m - 1 / 2 < y" and "y < of_int m + 1 / 2"
  shows "round_half_even y = m"
proof -
  have lo: "m - 1 \<le> \<lfloor>y\<rfloor>"
    using assms(1) by (simp add: le_floor_iff)
  have hi: "\<lfloor>y\<rfloor> \<le> m"
    using assms(2) by (simp add: floor_le_iff)
  from lo hi consider "\<lfloor>y\<rfloor> = m" | "\<lfloor>y\<rfloor> = m - 1" by linarith
  then show ?thesis
  proof cases
    case 1
    then show ?thesis
      using assms(2) by (simp add: round_half_even_def Let_def)
  next
    case 2
    then show ?thesis
      using assms(1) by (simp add: round_half_even_def Let_def)
  qed
qed

lemma to_double_round:
  assumes "power_int 2 k \<le> x" and "x < power_int 2 (k + 1)"
    and "of_int m - 1 / 2 < x / power_int 2 (k - 52)"
    and "x / power_int 2 (k - 52) < of_int m + 1 / 2"
  shows "to_double x = of_int m * power_int 2 (k - 52)"
proof -
  have pos: "0 < x"
    using assms(1) zero_less_power_int [of "2::rat" k] by linarith
  have k: "ilog2 x = k" using assms(1,2) by (rule ilog2_unique)
  have r: "round_half_even (x / power_int 2 (k - 52)) = m"
    using assms(3,4) by (rule round_half_even_unique)
  show ?thesis
    by (simp add: to_double_pos [OF pos] k r)
qed

lemma percent_close:
  assumes "0 < h"
  shows "0 < to_double (to_double (rat_of_nat h / to_double (rat_of_nat (h + m))) * 100)"
    and "\<bar>to_double (to_double (rat_of_nat h / to_double (rat_of_nat (h + m))) * 100) -
          100 * (rat_of_nat h / rat_of_nat (h + m))\<bar> \<le> 700 / 2 ^ 53"
proof -
  define u where "u = 1 / (2::rat) ^ 53"
  define H where "H = rat_of_nat h"
  define S where "S = rat_of_nat (h + m)"
  define s where "s = to_double S"
  define r where "r = H / s"
  define r1 where "r1 = to_double r"
  define p where "p = to_double (r1 * 100)"
  have u: "0 < u" "u \<le> 1 / 4" by (simp_all add: u_def)
  have err: "\<bar>to_double x - x\<bar> \<le> x * u" if "0 < x" for x
    using to_double_error [OF that] by (simp add: u_def)
  have H: "1 \<le> H" using assms by (simp add: H_def)
  have HS: "H \<le> S" by (simp add: H_def S_def)
  have S: "0 < S" using H HS by linarith
  have es: "\<bar>s - S\<bar> \<le> S * u"
    unfolding s_def using S by (rule err)
  have "S * u \<le> S * (1 / 4)"
    using u(2) S by (intro mult_left_mono) simp_all
  with es have s2: "S / 2 \<le> s" by linarith
  with S have s: "0 < s" by linarith
  have r: "0 < r" using H s by (simp add: r_def)
  have "H \<le> 2 * s" using HS s2 by linarith
  then have r2: "r \<le> 2"
    unfolding r_def using s by (simp add: pos_divide_le_eq)
  have eq: "r - H / S = r * ((S - s) / S)"
    unfolding r_def using s S by (simp add: field_simps)
  have "\<bar>S - s\<bar> \<le> S * u" using es by (simp add: abs_minus_commute)
  then have "\<bar>S - s\<bar> / S \<le> (S * u) / S"
    using S by (intro divide_right_mono) simp_all
  then have q: "\<bar>(S - s) / S\<bar> \<le> u"
    using S by simp
  have "\<bar>r - H / S\<bar> = r * \<bar>(S - s) / S\<bar>"
    unfolding eq using r by (simp add: abs_mult)
  also have "\<dots> \<le> r * u"
    using q r by (intro mult_left_mono) simp_all
  also have "\<dots> \<le> 2 * u"
    using r2 u(1) by (intro mult_right_mono) simp_all
  finally have e1: "\<bar>r - H / S\<bar> \<le> 2 * u" .
  have "\<bar>r1 - r\<bar> \<le> r * u"
    unfolding r1_def using r by (rule err)
  also have "\<dots> \<le> 2 * u"
    using r2 u(1) by (intro mult_right_mono) simp_all
  finally have e2: "\<bar>r1 - r\<bar> \<le> 2 * u" .
  have r1: "0 < r1" unfolding r1_def using r by (rule to_double_positive)
  have r13: "r1 \<le> 3" using e2 r2 u by linarith
  have t: "0 < r1 * 100" using r1 by simp
  have "\<bar>p - r1 * 100\<bar> \<le> (r1 * 100) * u"
    unfolding p_def using t by (rule err)
  also have "\<dots> \<le> 300 * u"
    using r13 u(1) by (intro mult_right_mono) simp_all
  finally have e3: "\<bar>p - r1 * 100\<bar> \<le> 300 * u" .
  have "\<bar>p - 100 * (H / S)\<bar> \<le> 700 * u"
    using e1 e2 e3 by linarith
  then have "\<bar>p - 100 * (H / S)\<bar> \<le> 700 / 2 ^ 53"
    by (simp add: u_def)
  then show "\<bar>to_double (to_double (rat_of_nat h / to_double (rat_of_nat (h + m))) * 100) -
          100 * (rat_of_nat h / rat_of_nat (h + m))\<bar> \<le> 700 / 2 ^ 53"
    by (simp only: p_def r1_def r_def s_def H_def S_def)
  have "0 < p" unfolding p_def using t by (rule to_double_positive)
  then show "0 < to_double (to_double (rat_of_nat h / to_double (rat_of_nat (h + m))) * 100)"
    by (simp only: p_def r1_def r_def s_def H_def S_def)
qed

lemma shown_close:
  assumes "0 \<le> p"
  shows "\<bar>rat_of_nat (nat \<lfloor>p * 100 + 1 / 2\<rfloor>) / 100 - p\<bar> \<le> 1 / 200"
proof -
  define z where "z = \<lfloor>p * 100 + 1 / 2\<rfloor>"
  have z0: "0 \<le> z" using assms by (simp add: z_def)
  have "of_int z \<le> p * 100 + 1 / 2" "p * 100 + 1 / 2 < of_int z + 1"
    unfolding z_def by linarith+
  then have "\<bar>rat_of_int z / 100 - p\<bar> \<le> 1 / 200"
    by linarith
  moreover have "rat_of_nat (nat z) = rat_of_int z"
    using z0 by (metis of_int_of_nat_eq int_nat_eq)
  ultimately show ?thesis by (simp add: z_def)
qed

lemma percent_3_1:
  "to_double (to_double (rat_of_nat 3 / to_double (rat_of_nat (3 + 1))) * 100) = 75"
proof -
  have s: "to_double 4 = 4"
    using to_double_of_nat_pos [of 4] by simp
  have r: "to_double (3 / 4) = 3 / 4"
    by (rule to_double_exact [where k = "- 1" and z = "3 * 2 ^ 51"]) simp_all
  have t: "to_double 75 = 75"
    using to_double_of_nat_pos [of 75] by simp
  show ?thesis
    by (simp add: s r t)
qed

lemma floor_7500: "nat \<lfloor>(75::rat) * 100 + 1 / 2\<rfloor> = 7500"
proof -
  have "\<lfloor>(75::rat) * 100 + 1 / 2\<rfloor> = 7500"
    by (rule floor_unique) simp_all
  then show ?thesis by simp
qed

lemma double_error_tiny: "(700::rat) / 2 ^ 53 \<le> 1 / 10 ^ 12"
  by simp

subsection \<open>Formatting the hit rate\<close>

lemma digit_char_0 [simp]: "digit_char 0 = CHR ''0''"
  by (simp add: digit_char_def)

lemma dec_digits_small: "n < 10 \<Longrightarrow> dec_digits n = [digit_char n]"
  by (subst dec_digits.simps) simp

lemma dec_digits_step:
  "10 \<le> n \<Longrightarrow> dec_digits n = dec_digits (n div 10) @ [digit_char (n mod 10)]"
  by (subst dec_digits.simps) simp

lemma dec_digits_two_last:
  assumes "100 \<le> n"
  shows "dec_digits n = dec_digits (n div 100) @ [digit_char (n div 10 mod 10), digit_char (n mod 10)]"
proof -
  have a: "10 \<le> n"
    using assms by simp
  have b: "10 \<le> n div 10"
    using div_le_mono [OF assms, of 10] by simp
  have c: "n div 10 div 10 = n div 100"
    using div_mult2_eq [of n 10 10] by simp
  have "dec_digits n = (dec_digits (n div 10 div 10) @ [digit_char (n div 10 mod 10)]) @
      [digit_char (n mod 10)]"
    by (simp only: dec_digits_step [OF a] dec_digits_step [OF b])
  then show ?thesis
    by (simp only: c append_assoc append_Cons append_Nil)
qed

lemma dec_digits_nonempty: "dec_digits n \<noteq> []"
  by (subst dec_digits.simps) simp

lemma pad_split:
  "(let m = dec_digits n;
        m' = (if (2::nat) \<noteq> 0 \<and> length m \<le> 2
              then replicate (2 + 1 - length m) (CHR ''0'') @ m else m)
    in take (length m' - 2) m' @ ''.'' @ drop (length m' - 2) m') = fixed2 n"
proof -
  consider "n < 10" | "10 \<le> n" "n < 100" | "100 \<le> n" by linarith
  then show ?thesis
  proof cases
    case 1
    have m: "dec_digits n = [digit_char n]" using 1 by (rule dec_digits_small)
    have z: "n div 100 = 0" "n div 10 = 0" "n mod 10 = n" using 1 by simp_all
    show ?thesis
      unfolding fixed2_def m z Let_def by (simp add: dec_digits_small numeral_3_eq_3)
  next
    case 2
    have q: "n div 10 < 10" using 2 by (simp add: div_less_iff_less_mult)
    have m: "dec_digits n = [digit_char (n div 10), digit_char (n mod 10)]"
      by (simp only: dec_digits_step [OF 2(1)] dec_digits_small [OF q] append_Cons append_Nil)
    have z: "n div 100 = 0" "n div 10 mod 10 = n div 10" using 2 q by simp_all
    show ?thesis
      unfolding fixed2_def m z Let_def by (simp add: dec_digits_small)
  next
    case 3
    have len: "length (dec_digits (n div 100)) > 0"
      using dec_digits_nonempty by simp
    show ?thesis
      unfolding fixed2_def dec_digits_two_last [OF 3] Let_def using len by simp
  qed
qed

lemma toFixed_2:
  assumes "0 \<le> x"
  shows "toFixed x 2 = fixed2 (nat \<lfloor>x * 100 + 1 / 2\<rfloor>)"
proof -
  have neg: "\<not> x < 0" using assms by simp
  have ab: "\<bar>x\<bar> * 10 ^ 2 = x * 100" using assms by simp
  show ?thesis
    unfolding toFixed_def ab using neg pad_split [of "nat \<lfloor>x * 100 + 1 / 2\<rfloor>"]
    by (simp only: Let_def if_False append_Nil) simp
qed

lemma hitRate_of_pos:
  assumes "0 < hits h"
  shows "hitRate_of h =
     fixed2 (nat \<lfloor>to_double (to_double (rat_of_nat (hits h) /
               to_double (rat_of_nat (hits h + misses h))) * 100) * 100 + 1 / 2\<rfloor>) @ ''%''"
proof -
  have "0 \<le> to_double (to_double (rat_of_nat (hits h) /
               to_double (rat_of_nat (hits h + misses h))) * 100)"
    using percent_close(1) [OF assms, of "misses h"] by simp
  then show ?thesis
    unfolding hitRate_of_def using assms by (simp only: toFixed_2 if_True)
qed

lemma hitRate_of_zero: "hits h = 0 \<Longrightarrow> hitRate_of h = ''0%''"
  by (simp add: hitRate_of_def)

lemma hitRate_of_3_1:
  assumes "hits h = 3" and "misses h = 1"
  shows "hitRate_of h = ''75.00%''"
proof -
  have "hitRate_of h =
      toFixed (to_double (to_double (rat_of_nat 3 / to_double (rat_of_nat (3 + 1))) * 100)) 2 @ ''%''"
    unfolding hitRate_of_def assms by simp
  also have "\<dots> = toFixed 75 2 @ ''%''"
    unfolding percent_3_1 ..
  also have "toFixed 75 2 = fixed2 (nat \<lfloor>(75::rat) * 100 + 1 / 2\<rfloor>)"
    by (rule toFixed_2) simp
  also have "\<dots> = fixed2 7500"
    unfolding floor_7500 ..
  also have "fixed2 7500 = ''75.00''"
    by (simp add: fixed2_def dec_digits.simps digit_char_def)
  finally show ?thesis by simp
qed

lemma hitRate_of_close:
  assumes "0 < hits h"
  shows "\<exists>n. hitRate_of h = fixed2 n @ ''%'' \<and>
     \<bar>rat_of_nat n / 100 -
      100 * (rat_of_nat (hits h) / rat_of_nat (hits h + misses h))\<bar> \<le> 1 / 200 + 1 / 10 ^ 12"
proof -
  define p where "p = to_double (to_double (rat_of_nat (hits h) /
               to_double (rat_of_nat (hits h + misses h))) * 100)"
  define n where "n = nat \<lfloor>p * 100 + 1 / 2\<rfloor>"
  have p: "0 \<le> p"
    unfolding p_def using percent_close(1) [OF assms, of "misses h"] by simp
  have a: "hitRate_of h = fixed2 n @ ''%''"
    unfolding n_def p_def by (rule hitRate_of_pos [OF assms])
  have b: "\<bar>rat_of_nat n / 100 - p\<bar> \<le> 1 / 200"
    unfolding n_def using p by (rule shown_close)
  have c: "\<bar>p - 100 * (rat_of_nat (hits h) / rat_of_nat (hits h + misses h))\<bar> \<le> 1 / 10 ^ 12"
    unfolding p_def using percent_close(2) [OF assms, of "misses h"] double_error_tiny by (rule order_trans)
  have "\<bar>rat_of_nat n / 100 -
      100 * (rat_of_nat (hits h) / rat_of_nat (hits h + misses h))\<bar> \<le> 1 / 200 + 1 / 10 ^ 12"
    using b c by linarith
  with a show ?thesis by blast
qed

text \<open>Two records where the rounding to doubles decides the last digit shown. With 23
  hits and 137 misses the exact percentage is 14.375, which \<open>toFixed\<close> would show as
  14.38; the double computed is a little below it.\<close>

lemma percent_23_137:
  "to_double (to_double (rat_of_nat 23 / to_double (rat_of_nat (23 + 137))) * 100) =
   8092405580431359 / 2 ^ 49"
proof -
  have s: "to_double 160 = 160"
    using to_double_of_nat_pos [of 160] by simp
  have q: "to_double (23 / 160) = 5179139571476070 / 2 ^ 55"
    using to_double_round [where x = "23 / 160" and k = "- 3" and m = 5179139571476070]
    by simp
  have p: "to_double (5179139571476070 / 2 ^ 55 * 100) = 8092405580431359 / 2 ^ 49"
    using to_double_round [where x = "5179139571476070 / 2 ^ 55 * 100" and k = 3
        and m = 8092405580431359]
    by simp
  have a: "rat_of_nat 23 = 23" and b: "rat_of_nat (23 + 137) = 160"
    by simp_all
  show ?thesis
    by (simp only: a b s q p)
qed

lemma hitRate_of_23_137:
  assumes "hits h = 23" and "misses h = 137"
  shows "hitRate_of h = ''14.37%''"
proof -
  have "hitRate_of h =
      toFixed (to_double (to_double (rat_of_nat 23 / to_double (rat_of_nat (23 + 137))) * 100)) 2
      @ ''%''"
    unfolding hitRate_of_def assms by simp
  also have "\<dots> = toFixed (8092405580431359 / 2 ^ 49) 2 @ ''%''"
    unfolding percent_23_137 ..
  also have "toFixed (8092405580431359 / 2 ^ 49) 2 =
      fixed2 (nat \<lfloor>(8092405580431359 / 2 ^ 49 :: rat) * 100 + 1 / 2\<rfloor>)"
    by (rule toFixed_2) simp
  also have "\<lfloor>(8092405580431359 / 2 ^ 49 :: rat) * 100 + 1 / 2\<rfloor> = 1437"
    by (rule floor_unique) simp_all
  also have "fixed2 (nat 1437) = ''14.37''"
    by (simp add: fixed2_def dec_digits.simps digit_char_def)
  finally show ?thesis by simp
qed

lemma percent_large:
  "to_double (to_double (rat_of_nat 472894896416 /
      to_double (rat_of_nat (472894896416 + 248036419105))) * 100) =
   4615837774333870 / 2 ^ 46"
proof -
  have s: "to_double 720931315521 = 720931315521"
    using to_double_of_nat_pos [of 720931315521] by simp
  have q: "to_double (472894896416 / 720931315521) = 5908272351147354 / 2 ^ 53"
    using to_double_round [where x = "472894896416 / 720931315521" and k = "- 1"
        and m = 5908272351147354]
    by simp
  have p: "to_double (5908272351147354 / 2 ^ 53 * 100) = 4615837774333870 / 2 ^ 46"
    using to_double_round [where x = "5908272351147354 / 2 ^ 53 * 100" and k = 6
        and m = 4615837774333870]
    by simp
  have a: "rat_of_nat 472894896416 = 472894896416"
    and b: "rat_of_nat (472894896416 + 248036419105) = 720931315521"
    by simp_all
  show ?thesis
    by (simp only: a b s q p)
qed

lemma hitRate_of_large:
  assumes "hits h = 472894896416" and "misses h = 248036419105"
  shows "hitRate_of h = ''65.59%''"
proof -
  have "hitRate_of h =
      toFixed (to_double (to_double (rat_of_nat 472894896416 /
        to_double (rat_of_nat (472894896416 + 248036419105))) * 100)) 2 @ ''%''"
    unfolding hitRate_of_def assms by simp
  also have "\<dots> = toFixed (4615837774333870 / 2 ^ 46) 2 @ ''%''"
    unfolding percent_large ..
  also have "toFixed (4615837774333870 / 2 ^ 46) 2 =
      fixed2 (nat \<lfloor>(4615837774333870 / 2 ^ 46 :: rat) * 100 + 1 / 2\<rfloor>)"
    by (rule toFixed_2) simp
  also have "\<lfloor>(4615837774333870 / 2 ^ 46 :: rat) * 100 + 1 / 2\<rfloor> = 6559"
    by (rule floor_unique) simp_all
  also have "fixed2 (nat 6559) = ''65.59''"
    by (simp add: fixed2_def dec_digits.simps digit_char_def)
  finally show ?thesis by simp
qed

lemma three_hits_one_miss_state:
  "map_of (hitStats three_hits_one_miss) ''players'' =
     Some \<lparr>hits = 3, misses = 1, sets = 1, deletes = 0, flushes = 0\<rparr> \<and>
   map fst (caches three_hits_one_miss) = map fst (hitStats three_hits_one_miss) \<and>
   map_of (caches three_hits_one_miss) ''players'' =
     Some \<lparr>entries = [(''player:w1'', \<lparr>entry_value = JNum 1, expiresAt = 300\<rparr>)],
           stdTTL = 300, checkperiod = 60, maxKeys = 10000, sweeping = True\<rparr>"
  by (simp add: three_hits_one_miss_def Let_def cm_set_def cm_get_def get_property_def
      constructor_def setupStatsTracking_def store_cache_def recordHit_def nc_set_def nc_get_def
      NodeCache_def)

lemma getStats_loop_ok:
  assumes "fst ` set cs \<subseteq> fst ` set (hitStats s)"
  shows "getStats_loop s cs =
     Inr (map (\<lambda>(n, c). (n, \<lparr>keys = length (nc_keys c),
                              stats_hitStats = the (map_of (hitStats s) n),
                              hitRate = hitRate_of (the (map_of (hitStats s) n))\<rparr>)) cs)"
  using assms
proof (induction cs)
  case Nil
  then show ?case by simp
next
  case (Cons p cs)
  obtain n c where p: "p = (n, c)" by (cases p)
  from Cons.prems have "n \<in> fst ` set (hitStats s)" by (simp add: p)
  then obtain h where h: "map_of (hitStats s) n = Some h"
    by (metis map_of_eq_None_iff not_Some_eq)
  from Cons.prems have "fst ` set cs \<subseteq> fst ` set (hitStats s)" by simp
  then show ?case
    by (simp add: p h Cons.IH)
qed

lemma map_of_map_keyed:
  "map_of (map (\<lambda>(n, c). (n, f n c)) cs) k = map_option (f k) (map_of cs k)"
  by (induction cs) auto

subsection \<open>Shutdown\<close>

text \<open>
  C8. Calling \<open>shutdown\<close> twice leaves the manager as one call does, and in that state
  every cache has its sweep timer stopped and holds no entry. \<open>shutdown\<close> has no failing
  branch: it returns a manager for every manager. The namespaces and the statistics stay.
\<close>

theorem shutdown_idempotent:
  "shutdown (shutdown s) = shutdown s \<and>
   map (\<lambda>(cacheType, c). (cacheType, entries c, sweeping c)) (caches (shutdown s)) =
     map (\<lambda>(cacheType, c). (cacheType, [], False)) (caches s) \<and>
   hitStats (shutdown s) = hitStats s"
  by (auto simp: shutdown_def nc_close_def case_prod_unfold comp_def)

subsection \<open>Pattern invalidation and the counters\<close>

text \<open>
  C10. \<open>invalidatePattern\<close> leaves the statistics record of every namespace as it was,
  whatever it removes: it calls the cache's own \<open>del\<close>, not the manager's.
\<close>

theorem invalidatePattern_keeps_hitStats:
  "hitStats (snd (invalidatePattern s cacheType pattern)) = hitStats s"
  by (simp add: invalidatePattern_def Let_def split: property.splits)

text \<open>The manager's own \<open>del\<close>, by contrast, counts every removal.\<close>

lemma cm_del_counts_delete:
  assumes "map_of (caches s) cacheType = Some c"
    and "map_of (entries c) key \<noteq> None"
    and "map_of (hitStats s) cacheType = Some h"
  shows "fst (cm_del s cacheType key) = Inr (JNum 1)"
    and "map_of (hitStats (snd (cm_del s cacheType key))) cacheType =
           Some (h\<lparr>deletes := deletes h + 1\<rparr>)"
  using assms
  by (auto simp: cm_del_Own nc_del_def recordHit_def AList.map_of_map_entry)

subsection \<open>Unknown namespaces\<close>

text \<open>A name that is neither a configured namespace nor a property of \<open>Object.prototype\<close>
  is turned away by the guard: nothing changes and nothing is thrown.\<close>

lemma unknown_namespace_noop:
  assumes "map_of (caches s) cacheType = None" and "cacheType \<notin> set object_prototype_names"
  shows "cm_get s now cacheType key = (Inr Null, s)"
    and "cm_set s now cacheType key v ttl = (Inr (JBool False), s)"
    and "cm_del s cacheType key = (Inr (JNum 0), s)"
  using assms by (simp_all add: cm_get_def cm_set_def cm_del_def get_property_Absent)

text \<open>
  C5. The name \<open>constructor\<close> is not a configured namespace, yet \<open>get\<close>, \<open>set\<close> and
  \<open>del\<close> throw a \<open>TypeError\<close> on it: \<open>this.caches['constructor']\<close> is the inherited
  \<open>Object\<close> function, which is truthy and has no \<open>get\<close>, \<open>set\<close> or \<open>del\<close> method.
\<close>

theorem inherited_name_throws:
  "map_of (caches constructor) ''constructor'' = None \<and>
   cm_get constructor 0 ''constructor'' ''k'' = (Inl TypeError, constructor) \<and>
   cm_set constructor 0 ''constructor'' ''k'' (JNum 1) None = (Inl TypeError, constructor) \<and>
   cm_del constructor ''constructor'' ''k'' = (Inl TypeError, constructor)"
  by (simp add: cm_get_def cm_set_def cm_del_def get_property_def caches_constructor
      object_prototype_names_def)

subsection \<open>Capacity\<close>

text \<open>
  C2. On a namespace that holds \<open>maxKeys\<close> entries, \<open>set\<close> with a key that is not
  there returns \<open>false\<close>, throws nothing and leaves the manager as it was, so every
  \<open>get\<close> afterwards answers as it would have before.
\<close>

theorem set_on_full_namespace:
  assumes "map_of (caches s) cacheType = Some c"
    and "map_of (entries c) key = None"
    and "length (entries c) = maxKeys c"
  shows "cm_set s now cacheType key v ttl = (Inr (JBool False), s) \<and>
         (\<forall>k now'. cm_get (snd (cm_set s now cacheType key v ttl)) now' cacheType k =
                    cm_get s now' cacheType k)"
  using assms by (simp add: cm_set_full)

theorem set_on_full_namespace_witness:
  "cm_set (fill_leaderboards 100) 0 ''leaderboards'' ''leaderboard:score:10'' (JNum 7) None =
     (Inr (JBool False), fill_leaderboards 100)"
proof -
  from full_leaderboards obtain c where
    "map_of (caches (fill_leaderboards 100)) ''leaderboards'' = Some c"
    "map_of (entries c) ''leaderboard:score:10'' = None"
    "length (entries c) = maxKeys c"
    by blast
  then show ?thesis
    using set_on_full_namespace [of "fill_leaderboards 100" "''leaderboards''" c] by simp
qed

subsection \<open>Round trip\<close>

text \<open>
  C1, as stated, fails twice. On a full namespace \<open>set\<close> with a new key returns \<open>false\<close>
  and the \<open>get\<close> that follows finds nothing. And a stored \<open>undefined\<close> is read back as
  \<open>null\<close>: \<open>get\<close> takes the \<open>undefined\<close> it receives for a miss.
\<close>

theorem set_then_get_counterexample:
  "fst (cm_set (fill_leaderboards 100) 0 ''leaderboards'' ''leaderboard:score:10'' (JNum 7)
          (Some 60)) = Inr (JBool False) \<and>
   fst (cm_get (snd (cm_set (fill_leaderboards 100) 0 ''leaderboards'' ''leaderboard:score:10''
          (JNum 7) (Some 60))) 0 ''leaderboards'' ''leaderboard:score:10'') = Inr Null \<and>
   fst (cm_set constructor 0 ''players'' ''k'' Undefined (Some 60)) = Inr (JBool True) \<and>
   fst (cm_get (snd (cm_set constructor 0 ''players'' ''k'' Undefined (Some 60)))
          0 ''players'' ''k'') = Inr Null"
proof -
  from full_leaderboards obtain c where c:
    "map_of (caches (fill_leaderboards 100)) ''leaderboards'' = Some c"
    "map_of (entries c) ''leaderboard:score:10'' = None"
    "length (entries c) = maxKeys c"
    by blast
  have a: "fst (cm_set (fill_leaderboards 100) 0 ''leaderboards'' ''leaderboard:score:10''
      (JNum 7) (Some 60)) = Inr (JBool False)"
    by (simp add: cm_set_full [OF c])
  have b: "fst (cm_get (snd (cm_set (fill_leaderboards 100) 0 ''leaderboards''
      ''leaderboard:score:10'' (JNum 7) (Some 60))) 0 ''leaderboards'' ''leaderboard:score:10'')
      = Inr Null"
    using c(2) by (simp add: cm_set_full [OF c] cm_get_value [OF c(1)])
  let ?c0 = "NodeCache 300 60 10000"
  let ?c1 = "?c0\<lparr>entries := [(''k'', \<lparr>entry_value = Undefined, expiresAt = 60\<rparr>)]\<rparr>"
  have 0: "map_of (caches constructor) ''players'' = Some ?c0"
    by (simp add: caches_constructor)
  have d: "fst (cm_set constructor 0 ''players'' ''k'' Undefined (Some 60)) = Inr (JBool True)"
    by (simp add: cm_set_Own [OF 0] nc_set_def NodeCache_def)
  have 1: "map_of (caches (snd (cm_set constructor 0 ''players'' ''k'' Undefined (Some 60))))
      ''players'' = Some ?c1"
    by (simp add: cm_set_state [OF 0] nc_set_def NodeCache_def)
  have e: "fst (cm_get (snd (cm_set constructor 0 ''players'' ''k'' Undefined (Some 60)))
      0 ''players'' ''k'') = Inr Null"
    unfolding cm_get_value [OF 1] by simp
  from a b d e show ?thesis by (intro conjI)
qed

text \<open>
  C1, amended. On a configured namespace where the key is already present or fewer than
  \<open>maxKeys\<close> entries are held, \<open>set(namespace, key, value, ttl)\<close> with a value other than
  \<open>undefined\<close> returns \<open>true\<close>, and a \<open>get(namespace, key)\<close> before the entry expires (that
  is before \<open>now + ttl\<close>, with the namespace's \<open>stdTTL\<close> for a \<open>ttl\<close> that is left out or 0)
  returns exactly the value that was set.
\<close>

theorem set_then_get:
  assumes "map_of (caches s) cacheType = Some c"
    and "map_of (entries c) key \<noteq> None \<or> length (entries c) < maxKeys c"
    and "v \<noteq> Undefined"
    and "now' < now + (case ttl of None \<Rightarrow> stdTTL c | Some t \<Rightarrow> if t = 0 then stdTTL c else t)"
  shows "fst (cm_set s now cacheType key v ttl) = Inr (JBool True) \<and>
         fst (cm_get (snd (cm_set s now cacheType key v ttl)) now' cacheType key) = Inr v"
proof -
  define t where "t = (if ttl = Some 0 then None else ttl)"
  define r where "r = nc_set now c key v t"
  have ok: "fst r"
    using assms(2) by (auto simp: r_def nc_set_def)
  have res: "fst (cm_set s now cacheType key v ttl) = Inr (JBool True)"
    using assms(1) ok by (simp add: cm_set_Own Let_def r_def t_def)
  have s': "snd (cm_set s now cacheType key v ttl) =
      recordHit (store_cache s cacheType (snd r)) cacheType Sets"
    using assms(1) ok by (simp add: cm_set_Own Let_def r_def t_def)
  have look: "map_of (caches (snd (cm_set s now cacheType key v ttl))) cacheType = Some (snd r)"
    using assms(1) by (simp add: s' map_of_store_cache)
  have "now' < now + (case t of None \<Rightarrow> stdTTL c | Some x \<Rightarrow> x)"
    using assms(4) by (auto simp: t_def split: option.splits if_splits)
  with ok have "nc_get now' (snd r) key = (Some v, snd r)"
    unfolding r_def by (rule nc_get_after_nc_set)
  then have "fst (cm_get (snd (cm_set s now cacheType key v ttl)) now' cacheType key) = Inr v"
    using assms(3) by (simp add: cm_get_Own [OF look] Let_def)
  with res show ?thesis by (rule conjI)
qed

theorem set_then_get_witness:
  "fst (cm_set constructor 0 ''players'' ''player:w1'' (JStr ''data'') (Some 300)) =
     Inr (JBool True) \<and>
   fst (cm_get (snd (cm_set constructor 0 ''players'' ''player:w1'' (JStr ''data'') (Some 300)))
        299 ''players'' ''player:w1'') = Inr (JStr ''data'')"
proof -
  have 1: "map_of (caches constructor) ''players'' = Some (NodeCache 300 60 10000)"
    by (simp add: caches_constructor)
  have 2: "map_of (entries (NodeCache 300 60 10000)) ''player:w1'' \<noteq> None \<or>
      length (entries (NodeCache 300 60 10000)) < maxKeys (NodeCache 300 60 10000)"
    by (simp add: NodeCache_def)
  have 3: "JStr ''data'' \<noteq> Undefined"
    by simp
  have 4: "299 < (0::int) + (case Some 300 of None \<Rightarrow> stdTTL (NodeCache 300 60 10000)
      | Some t \<Rightarrow> if t = 0 then stdTTL (NodeCache 300 60 10000) else t)"
    by simp
  show ?thesis
    using set_then_get [OF 1 2 3 4] .
qed

subsection \<open>What \<open>get\<close> tells about presence\<close>

text \<open>
  C7, as stated, fails: \<open>get\<close> answers a hit on a stored \<open>null\<close> with the same \<open>null\<close> as
  a miss.
\<close>

theorem get_null_ambiguous_counterexample:
  "fst (cm_set constructor 0 ''players'' ''k'' Null None) = Inr (JBool True) \<and>
   fst (cm_get (snd (cm_set constructor 0 ''players'' ''k'' Null None)) 0 ''players'' ''k'') =
   fst (cm_get constructor 0 ''players'' ''k'')"
proof -
  have 1: "map_of (caches constructor) ''players'' = Some (NodeCache 300 60 10000)"
    by (simp add: caches_constructor)
  have 2: "cm_set constructor 0 ''players'' ''k'' Null None =
     (Inr (JBool True), recordHit (store_cache constructor ''players''
        ((NodeCache 300 60 10000)\<lparr>entries := [(''k'', \<lparr>entry_value = Null, expiresAt = 300\<rparr>)]\<rparr>))
        ''players'' Sets)"
    by (simp add: cm_set_Own [OF 1] nc_set_def NodeCache_def)
  have 3: "map_of (caches (snd (cm_set constructor 0 ''players'' ''k'' Null None))) ''players'' =
      Some ((NodeCache 300 60 10000)\<lparr>entries := [(''k'', \<lparr>entry_value = Null, expiresAt = 300\<rparr>)]\<rparr>)"
    by (simp add: 2 map_of_store_cache 1)
  have 4: "fst (cm_get (snd (cm_set constructor 0 ''players'' ''k'' Null None)) 0 ''players'' ''k'')
      = Inr Null"
    by (simp add: cm_get_value [OF 3])
  have 5: "fst (cm_get constructor 0 ''players'' ''k'') = Inr Null"
    by (simp add: cm_get_value [OF 1] NodeCache_def)
  have 6: "fst (cm_set constructor 0 ''players'' ''k'' Null None) = Inr (JBool True)"
    by (simp add: 2)
  from 4 5 6 show ?thesis
    by simp
qed

text \<open>
  C7, amended. On a configured namespace \<open>get\<close> returns \<open>null\<close> on a miss and the stored
  value on a hit, so its result differs from the result of a miss exactly when an
  unexpired entry holds a value other than \<open>null\<close> and \<open>undefined\<close>; a stored \<open>null\<close> or
  \<open>undefined\<close> cannot be told from a miss.
\<close>

theorem get_tells_hit_from_miss:
  assumes "map_of (caches s) cacheType = Some c"
  shows "(fst (cm_get s now cacheType key) \<noteq> Inr Null \<longleftrightarrow>
            (\<exists>e. map_of (entries c) key = Some e \<and> now < expiresAt e \<and>
                 entry_value e \<noteq> Null \<and> entry_value e \<noteq> Undefined)) \<and>
         (\<forall>e. map_of (entries c) key = Some e \<and> now < expiresAt e \<and>
                 entry_value e \<noteq> Undefined \<longrightarrow>
              fst (cm_get s now cacheType key) = Inr (entry_value e))"
  by (auto simp: cm_get_value [OF assms] split: option.splits)

theorem get_tells_hit_from_miss_witness:
  "fst (cm_get (snd (cm_set constructor 0 ''players'' ''k'' (JNum 0) None)) 0 ''players'' ''k'')
     = Inr (JNum 0)"
proof -
  have 1: "map_of (caches constructor) ''players'' = Some (NodeCache 300 60 10000)"
    by (simp add: caches_constructor)
  have 2: "cm_set constructor 0 ''players'' ''k'' (JNum 0) None =
     (Inr (JBool True), recordHit (store_cache constructor ''players''
        ((NodeCache 300 60 10000)\<lparr>entries := [(''k'', \<lparr>entry_value = JNum 0, expiresAt = 300\<rparr>)]\<rparr>))
        ''players'' Sets)"
    by (simp add: cm_set_Own [OF 1] nc_set_def NodeCache_def)
  have 3: "map_of (caches (snd (cm_set constructor 0 ''players'' ''k'' (JNum 0) None))) ''players'' =
      Some ((NodeCache 300 60 10000)\<lparr>entries := [(''k'', \<lparr>entry_value = JNum 0, expiresAt = 300\<rparr>)]\<rparr>)"
    by (simp add: 2 map_of_store_cache 1)
  show ?thesis
    using get_tells_hit_from_miss [OF 3, of 0 "''k''"] by simp
qed

subsection \<open>Pattern invalidation\<close>

text \<open>
  C4. On a configured namespace \<open>invalidatePattern\<close> throws nothing and keeps exactly the
  entries whose key does not contain the pattern as a contiguous substring: a key that
  contains it is gone, and every other key has its entry unchanged and is answered by
  \<open>get\<close> as before.
\<close>

theorem invalidatePattern_removes_matching:
  assumes "map_of (caches s) cacheType = Some c"
  shows "\<exists>c'. fst (invalidatePattern s cacheType pattern) = Inr () \<and>
      map_of (caches (snd (invalidatePattern s cacheType pattern))) cacheType = Some c' \<and>
      entries c' = filter (\<lambda>(key, e). \<not> (\<exists>pre suf. key = pre @ pattern @ suf)) (entries c) \<and>
      (\<forall>key. (\<exists>pre suf. key = pre @ pattern @ suf) \<longrightarrow> map_of (entries c') key = None) \<and>
      (\<forall>key now. \<not> (\<exists>pre suf. key = pre @ pattern @ suf) \<longrightarrow>
         map_of (entries c') key = map_of (entries c) key \<and>
         fst (cm_get (snd (invalidatePattern s cacheType pattern)) now cacheType key) =
         fst (cm_get s now cacheType key))"
proof -
  let ?c' = "c\<lparr>entries := filter (\<lambda>p. \<not> js_includes (fst p) pattern) (entries c)\<rparr>"
  have iff: "(\<exists>pre suf. key = pre @ pattern @ suf) = js_includes key pattern" for key
    by (simp add: js_includes_iff)
  have look: "map_of (caches (snd (invalidatePattern s cacheType pattern))) cacheType = Some ?c'"
    using assms by (simp add: invalidatePattern_Own map_of_store_cache)
  have ent: "entries ?c' = filter (\<lambda>(key, e). \<not> js_includes key pattern) (entries c)"
    by (simp add: case_prod_unfold)
  have gone: "map_of (entries ?c') key = None" if "js_includes key pattern" for key
    using that by (simp add: map_of_filter_fst [of "\<lambda>k. \<not> js_includes k pattern"])
  have kept: "map_of (entries ?c') key = map_of (entries c) key"
    if "\<not> js_includes key pattern" for key
    using that by (simp add: map_of_filter_fst [of "\<lambda>k. \<not> js_includes k pattern"])
  have get: "fst (cm_get (snd (invalidatePattern s cacheType pattern)) now cacheType key) =
         fst (cm_get s now cacheType key)"
    if "\<not> js_includes key pattern" for key now
    using kept [OF that] by (simp add: cm_get_value [OF look] cm_get_value [OF assms])
  have "fst (invalidatePattern s cacheType pattern) = Inr ()"
    using assms by (simp add: invalidatePattern_Own)
  with look ent gone kept get show ?thesis
    unfolding iff by blast
qed

theorem invalidatePattern_removes_matching_witness:
  "fst (cm_get (snd (invalidatePattern
      (snd (cm_set (snd (cm_set constructor 0 ''players'' ''player:wallet123'' (JNum 5) None))
         0 ''players'' ''player:other'' (JNum 6) None)) ''players'' ''wallet123''))
      0 ''players'' ''player:wallet123'') = Inr Null \<and>
   fst (cm_get (snd (invalidatePattern
      (snd (cm_set (snd (cm_set constructor 0 ''players'' ''player:wallet123'' (JNum 5) None))
         0 ''players'' ''player:other'' (JNum 6) None)) ''players'' ''wallet123''))
      0 ''players'' ''player:other'') = Inr (JNum 6)"
proof -
  let ?s1 = "snd (cm_set constructor 0 ''players'' ''player:wallet123'' (JNum 5) None)"
  let ?s2 = "snd (cm_set ?s1 0 ''players'' ''player:other'' (JNum 6) None)"
  let ?s3 = "snd (invalidatePattern ?s2 ''players'' ''wallet123'')"
  let ?c1 = "(NodeCache 300 60 10000)
     \<lparr>entries := [(''player:wallet123'', \<lparr>entry_value = JNum 5, expiresAt = 300\<rparr>)]\<rparr>"
  let ?c2 = "(NodeCache 300 60 10000)
     \<lparr>entries := [(''player:wallet123'', \<lparr>entry_value = JNum 5, expiresAt = 300\<rparr>),
                  (''player:other'', \<lparr>entry_value = JNum 6, expiresAt = 300\<rparr>)]\<rparr>"
  have 0: "map_of (caches constructor) ''players'' = Some (NodeCache 300 60 10000)"
    by (simp add: caches_constructor)
  have 1: "map_of (caches ?s1) ''players'' = Some ?c1"
    by (simp add: cm_set_Own [OF 0] nc_set_def map_of_store_cache 0 NodeCache_def)
  have 2: "map_of (caches ?s2) ''players'' = Some ?c2"
    by (simp add: cm_set_Own [OF 1] nc_set_def map_of_store_cache 1 NodeCache_def)
  have a: "\<exists>pre suf. ''player:wallet123'' = pre @ ''wallet123'' @ suf"
    unfolding js_includes_iff [symmetric] by simp
  have b: "\<not> (\<exists>pre suf. ''player:other'' = pre @ ''wallet123'' @ suf)"
    unfolding js_includes_iff [symmetric] by simp
  from invalidatePattern_removes_matching [OF 2, of "''wallet123''"]
  obtain c' where look: "map_of (caches ?s3) ''players'' = Some c'"
    and gone: "\<forall>key. (\<exists>pre suf. key = pre @ ''wallet123'' @ suf) \<longrightarrow>
        map_of (entries c') key = None"
    and kept: "\<forall>key now. \<not> (\<exists>pre suf. key = pre @ ''wallet123'' @ suf) \<longrightarrow>
        map_of (entries c') key = map_of (entries ?c2) key \<and>
        fst (cm_get ?s3 now ''players'' key) = fst (cm_get ?s2 now ''players'' key)"
    by (elim exE conjE) (rule that, assumption+)
  have g: "map_of (entries c') ''player:wallet123'' = None"
    using gone [rule_format, OF a] .
  have "fst (cm_get ?s3 0 ''players'' ''player:wallet123'') = Inr Null"
    by (simp only: cm_get_value [OF look] g option.case)
  moreover have k: "fst (cm_get ?s3 0 ''players'' ''player:other'') =
      fst (cm_get ?s2 0 ''players'' ''player:other'')"
    using kept [rule_format, OF b] by (rule conjunct2)
  have "fst (cm_get ?s3 0 ''players'' ''player:other'') = Inr (JNum 6)"
    unfolding k cm_get_value [OF 2] by simp
  ultimately show ?thesis by (rule conjI)
qed

subsection \<open>Rate limiting\<close>

text \<open>
  C3, as stated, fails twice. The second increment of an identifier stores the count 2
  and returns \<open>true\<close>, the result of \<open>set\<close>, not the count. And a stored count of
  \<open>2 ^ 53\<close> is not raised: \<open>current + 1\<close> is an addition of doubles, and the double nearest
  to \<open>2 ^ 53 + 1\<close> is \<open>2 ^ 53\<close>.
\<close>

theorem incrementRateLimit_returns_boolean_counterexample:
  "fst (incrementRateLimit (snd (incrementRateLimit constructor 0 ''u'' None)) 5 ''u'' None) =
     Inr (JBool True) \<and>
   fst (getRateLimit
     (snd (incrementRateLimit (snd (incrementRateLimit constructor 0 ''u'' None)) 5 ''u'' None))
     5 ''u'') = Inr (JNum 2) \<and>
   fst (getRateLimit (snd (setRateLimit constructor 0 ''v'' (JNum 9007199254740992) None))
     0 ''v'') = Inr (JNum 9007199254740992) \<and>
   fst (getRateLimit
     (snd (incrementRateLimit
        (snd (setRateLimit constructor 0 ''v'' (JNum 9007199254740992) None)) 0 ''v'' None))
     0 ''v'') = Inr (JNum 9007199254740992)"
proof -
  let ?s1 = "snd (incrementRateLimit constructor 0 ''u'' None)"
  let ?s2 = "snd (incrementRateLimit ?s1 5 ''u'' None)"
  let ?c0 = "NodeCache 3600 600 50000"
  let ?c1 = "?c0\<lparr>entries := [(''rate:u'', \<lparr>entry_value = JNum 1, expiresAt = 3600\<rparr>)]\<rparr>"
  let ?c2 = "?c0\<lparr>entries := [(''rate:u'', \<lparr>entry_value = JNum 2, expiresAt = 3605\<rparr>)]\<rparr>"
  have 0: "map_of (caches constructor) ''rateLimit'' = Some ?c0"
    by (simp add: caches_constructor)
  have p0: "fst (nc_get 0 ?c0 (''rate:'' @ ''u'')) = None \<and> (0::int) = 0 \<or>
      fst (nc_get 0 ?c0 (''rate:'' @ ''u'')) = Some (JNum 0)"
    by (simp add: nc_get_def NodeCache_def)
  have 1: "map_of (caches ?s1) ''rateLimit'' = Some ?c1"
    by (simp add: incrementRateLimit_result(2) [OF 0 p0 refl] nc_get_def nc_set_def NodeCache_def
        double_of_int_exact)
  have p1: "fst (nc_get 5 ?c1 (''rate:'' @ ''u'')) = None \<and> (1::int) = 0 \<or>
      fst (nc_get 5 ?c1 (''rate:'' @ ''u'')) = Some (JNum 1)"
    by (simp add: nc_get_def NodeCache_def)
  have r: "fst (incrementRateLimit ?s1 5 ''u'' None) = Inr (JBool True)"
    by (simp add: incrementRateLimit_result(1) [OF 1 p1 refl] nc_get_def nc_set_def NodeCache_def)
  have 2: "map_of (caches ?s2) ''rateLimit'' = Some ?c2"
    by (simp add: incrementRateLimit_result(2) [OF 1 p1 refl] nc_get_def nc_set_def NodeCache_def
        double_of_int_exact)
  have g: "fst (getRateLimit ?s2 5 ''u'') = Inr (JNum 2)"
    unfolding getRateLimit_def cm_get_value [OF 2] by simp
  let ?big = "9007199254740992 :: int"
  let ?t1 = "snd (setRateLimit constructor 0 ''v'' (JNum ?big) None)"
  let ?t2 = "snd (incrementRateLimit ?t1 0 ''v'' None)"
  let ?d1 = "?c0\<lparr>entries := [(''rate:v'', \<lparr>entry_value = JNum ?big, expiresAt = 3600\<rparr>)]\<rparr>"
  have 3: "map_of (caches ?t1) ''rateLimit'' = Some ?d1"
    unfolding setRateLimit_def
    by (simp add: cm_set_state [OF 0] nc_set_def NodeCache_def)
  have g1: "fst (getRateLimit ?t1 0 ''v'') = Inr (JNum ?big)"
    unfolding getRateLimit_def cm_get_value [OF 3] by simp
  have p3: "fst (nc_get 0 ?d1 (''rate:'' @ ''v'')) = None \<and> ?big = 0 \<or>
      fst (nc_get 0 ?d1 (''rate:'' @ ''v'')) = Some (JNum ?big)"
    by (simp add: nc_get_def NodeCache_def)
  have big: "double_of_int (?big + 1) = ?big"
    using double_of_int_2_53_plus_1 by simp
  have 4: "map_of (caches ?t2) ''rateLimit'' = Some ?d1"
    unfolding incrementRateLimit_result(2) [OF 3 p3 refl] big
    by (simp add: nc_get_def nc_set_def NodeCache_def)
  have g2: "fst (getRateLimit ?t2 0 ''v'') = Inr (JNum ?big)"
    unfolding getRateLimit_def cm_get_value [OF 4] by simp
  from r g g1 g2 show ?thesis by (intro conjI)
qed

text \<open>
  C3, amended. When the stored value under \<open>rate:identifier\<close> is a count \<open>n\<close> below
  \<open>2 ^ 53\<close> in absolute value (or is absent or expired, \<open>n = 0\<close>), \<open>incrementRateLimit\<close>
  returns the boolean result of \<open>set\<close>; when that result is \<open>true\<close>, the rate-limit
  namespace holds \<open>n + 1\<close> under the key, and it is \<open>true\<close> whenever the namespace holds
  fewer than \<open>maxKeys\<close> entries.
\<close>

theorem incrementRateLimit_stores_next_count:
  assumes "map_of (caches s) ''rateLimit'' = Some c"
    and "fst (nc_get now c (''rate:'' @ identifier)) = None \<and> n = 0 \<or>
         fst (nc_get now c (''rate:'' @ identifier)) = Some (JNum n)"
    and "\<bar>n\<bar> < 2 ^ 53"
  shows "\<exists>b. fst (incrementRateLimit s now identifier ttl) = Inr (JBool b) \<and>
     (b \<longrightarrow> (\<exists>c' e. map_of (caches (snd (incrementRateLimit s now identifier ttl))) ''rateLimit''
                      = Some c' \<and>
                    map_of (entries c') (''rate:'' @ identifier) = Some e \<and>
                    entry_value e = JNum (n + 1))) \<and>
     (length (entries c) < maxKeys c \<longrightarrow> b)"
proof -
  let ?key = "''rate:'' @ identifier"
  let ?c1 = "snd (nc_get now c ?key)"
  have exact: "double_of_int (n + 1) = n + 1"
    using assms(3) by (intro double_of_int_exact) simp
  define r where "r = nc_set now ?c1 ?key (JNum (double_of_int (n + 1)))
     (case ttl of None \<Rightarrow> Some 3600 | Some t \<Rightarrow> if t = 0 then None else Some t)"
  note res = incrementRateLimit_result [OF assms(1,2) r_def]
  have stored: "\<exists>e. map_of (entries (snd r)) ?key = Some e \<and> entry_value e = JNum (n + 1)"
    if "fst r"
    using that nc_set_stored [of now ?c1 ?key "JNum (n + 1)"] unfolding r_def exact by blast
  have room: "fst r" if "length (entries c) < maxKeys c"
  proof -
    have "length (entries ?c1) < maxKeys ?c1"
      using that nc_get_length [of now c ?key] by simp
    then show ?thesis unfolding r_def by (rule nc_set_room)
  qed
  from res stored room show ?thesis by blast
qed

theorem incrementRateLimit_stores_next_count_witness:
  "fst (incrementRateLimit constructor 0 ''u'' None) = Inr (JBool True) \<and>
   (\<exists>c' e. map_of (caches (snd (incrementRateLimit constructor 0 ''u'' None))) ''rateLimit''
              = Some c' \<and>
            map_of (entries c') ''rate:u'' = Some e \<and> entry_value e = JNum 1)"
proof -
  have 0: "map_of (caches constructor) ''rateLimit'' = Some (NodeCache 3600 600 50000)"
    by (simp add: caches_constructor)
  have 1: "fst (nc_get 0 (NodeCache 3600 600 50000) (''rate:'' @ ''u'')) = None \<and> (0::int) = 0 \<or>
      fst (nc_get 0 (NodeCache 3600 600 50000) (''rate:'' @ ''u'')) = Some (JNum 0)"
    by (simp add: nc_get_def NodeCache_def)
  have 2: "length (entries (NodeCache 3600 600 50000)) < maxKeys (NodeCache 3600 600 50000)"
    by (simp add: NodeCache_def)
  have 3: "\<bar>0::int\<bar> < 2 ^ 53"
    by simp
  from incrementRateLimit_stores_next_count [OF 0 1 3, of None] 2
  show ?thesis by auto
qed

text \<open>Run one after the other from a state where the identifier has no entry and the
  namespace has room, \<open>k + 1\<close> increments leave the count \<open>k + 1\<close>, as long as that is at most
  \<open>2 ^ 53\<close>: no update is lost.\<close>

lemma increments_in_sequence:
  assumes "map_of (caches s) ''rateLimit'' = Some c"
    and "map_of (entries c) (''rate:'' @ identifier) = None"
    and "length (entries c) < maxKeys c"
  shows "int (Suc k) \<le> 2 ^ 53 \<Longrightarrow>
     map_of (caches (increment_times (Suc k) s now identifier)) ''rateLimit'' =
     Some (c\<lparr>entries := AList.update (''rate:'' @ identifier)
              \<lparr>entry_value = JNum (int (Suc k)), expiresAt = now + 3600\<rparr> (entries c)\<rparr>)"
proof (induction k)
  case 0
  have p: "fst (nc_get now c (''rate:'' @ identifier)) = None \<and> (0::int) = 0 \<or>
      fst (nc_get now c (''rate:'' @ identifier)) = Some (JNum 0)"
    using assms(2) by (simp add: nc_get_def)
  have g: "snd (nc_get now c (''rate:'' @ identifier)) = c"
    using assms(2) by (simp add: nc_get_def)
  have d: "double_of_int (0 + 1) = 1"
    by (simp add: double_of_int_exact)
  have "map_of (caches (increment_times (Suc 0) s now identifier)) ''rateLimit'' =
      Some (snd (nc_set now c (''rate:'' @ identifier) (JNum 1) (Some 3600)))"
    using incrementRateLimit_result(2) [OF assms(1) p refl, of None] unfolding g d by simp
  also have "snd (nc_set now c (''rate:'' @ identifier) (JNum 1) (Some 3600)) =
      c\<lparr>entries := AList.update (''rate:'' @ identifier)
              \<lparr>entry_value = JNum (int (Suc 0)), expiresAt = now + 3600\<rparr> (entries c)\<rparr>"
    unfolding nc_set_def using assms(2,3) by simp
  finally show ?case .
next
  case (Suc k)
  let ?key = "''rate:'' @ identifier"
  let ?ck = "c\<lparr>entries := AList.update ?key
              \<lparr>entry_value = JNum (int (Suc k)), expiresAt = now + 3600\<rparr> (entries c)\<rparr>"
  have IH: "map_of (caches (increment_times (Suc k) s now identifier)) ''rateLimit'' = Some ?ck"
    using Suc.prems by (intro Suc.IH) simp
  have look: "map_of (entries ?ck) ?key =
      Some \<lparr>entry_value = JNum (int (Suc k)), expiresAt = now + 3600\<rparr>"
    by (simp add: AList.update_conv')
  have p: "fst (nc_get now ?ck ?key) = None \<and> int (Suc k) = 0 \<or>
      fst (nc_get now ?ck ?key) = Some (JNum (int (Suc k)))"
    unfolding nc_get_def look by simp
  have g: "snd (nc_get now ?ck ?key) = ?ck"
    unfolding nc_get_def look by simp
  have d: "double_of_int (int (Suc k) + 1) = int (Suc (Suc k))"
    using Suc.prems by (subst double_of_int_exact) simp_all
  have "map_of (caches (increment_times (Suc (Suc k)) s now identifier)) ''rateLimit'' =
      Some (snd (nc_set now ?ck ?key (JNum (int (Suc (Suc k)))) (Some 3600)))"
    using incrementRateLimit_result(2) [OF IH p refl, of None] unfolding g d by simp
  also have "snd (nc_set now ?ck ?key (JNum (int (Suc (Suc k)))) (Some 3600)) =
      c\<lparr>entries := AList.update ?key
              \<lparr>entry_value = JNum (int (Suc (Suc k))), expiresAt = now + 3600\<rparr> (entries c)\<rparr>"
    unfolding nc_set_def look by simp
  finally show ?case .
qed

subsection \<open>Statistics\<close>

text \<open>
  C6. For a configured namespace whose statistics record is \<open>h\<close>, \<open>getStats\<close> throws
  nothing and reports that record with a hit rate that is \<open>0%\<close> when there was no hit (so
  also when \<open>hits + misses = 0\<close>), \<open>75.00%\<close> after 3 hits and 1 miss, and otherwise a
  number with two fraction digits followed by \<open>%\<close> that is \<open>100 * hits / (hits + misses)\<close>
  up to the rounding: half a hundredth for the two digits shown, and less than \<open>10 ^ -12\<close>
  for the three operations on doubles that come before.
\<close>

theorem getStats_hitRate:
  assumes "map_of (caches s) cacheType = Some c"
    and "map_of (hitStats s) cacheType = Some h"
    and "fst ` set (caches s) \<subseteq> fst ` set (hitStats s)"
  shows "\<exists>stats r. getStats s = Inr stats \<and> map_of stats cacheType = Some r \<and>
      stats_hitStats r = h \<and>
      (hits h + misses h = 0 \<longrightarrow> hitRate r = ''0%'') \<and>
      (hits h = 3 \<and> misses h = 1 \<longrightarrow> hitRate r = ''75.00%'') \<and>
      (0 < hits h \<longrightarrow>
         (\<exists>n. hitRate r = fixed2 n @ ''%'' \<and>
              \<bar>rat_of_nat n / 100 -
               100 * (rat_of_nat (hits h) / rat_of_nat (hits h + misses h))\<bar>
                \<le> 1 / 200 + 1 / 10 ^ 12)) \<and>
      (hits h = 0 \<longrightarrow> hitRate r = ''0%'')"
proof -
  let ?r = "\<lparr>keys = length (nc_keys c), stats_hitStats = h, hitRate = hitRate_of h\<rparr>"
  let ?stats = "map (\<lambda>(n, c). (n, \<lparr>keys = length (nc_keys c),
                              stats_hitStats = the (map_of (hitStats s) n),
                              hitRate = hitRate_of (the (map_of (hitStats s) n))\<rparr>)) (caches s)"
  have 1: "getStats s = Inr ?stats"
    unfolding getStats_def by (rule getStats_loop_ok [OF assms(3)])
  have 2: "map_of ?stats cacheType = Some ?r"
    by (simp add: map_of_map_keyed assms(1,2))
  have 3: "hitRate ?r = ''0%''" if "hits h = 0"
    using that by (simp add: hitRate_of_zero)
  have 4: "hitRate ?r = ''75.00%''" if "hits h = 3 \<and> misses h = 1"
    using that by (simp add: hitRate_of_3_1)
  have 5: "\<exists>n. hitRate ?r = fixed2 n @ ''%'' \<and>
       \<bar>rat_of_nat n / 100 -
        100 * (rat_of_nat (hits h) / rat_of_nat (hits h + misses h))\<bar> \<le> 1 / 200 + 1 / 10 ^ 12"
    if "0 < hits h"
    using hitRate_of_close [OF that] by simp
  have 6: "stats_hitStats ?r = h" by simp
  have 7: "hitRate ?r = ''0%''" if "hits h + misses h = 0"
    using that by (simp add: hitRate_of_zero)
  show ?thesis
  proof (rule exI [where x = ?stats], rule exI [where x = ?r], intro conjI)
    show "getStats s = Inr ?stats" by (rule 1)
    show "map_of ?stats cacheType = Some ?r" by (rule 2)
    show "stats_hitStats ?r = h" by (rule 6)
    show "hits h + misses h = 0 \<longrightarrow> hitRate ?r = ''0%''" using 7 by (rule impI)
    show "hits h = 3 \<and> misses h = 1 \<longrightarrow> hitRate ?r = ''75.00%''" using 4 by (rule impI)
    show "0 < hits h \<longrightarrow>
         (\<exists>n. hitRate ?r = fixed2 n @ ''%'' \<and>
              \<bar>rat_of_nat n / 100 -
               100 * (rat_of_nat (hits h) / rat_of_nat (hits h + misses h))\<bar>
                \<le> 1 / 200 + 1 / 10 ^ 12)"
      using 5 by (rule impI)
    show "hits h = 0 \<longrightarrow> hitRate ?r = ''0%''" using 3 by (rule impI)
  qed
qed

theorem getStats_hitRate_witness:
  "\<exists>stats r. getStats three_hits_one_miss = Inr stats \<and> map_of stats ''players'' = Some r \<and>
      hitRate r = ''75.00%''"
proof -
  let ?h = "\<lparr>hits = 3, misses = 1, sets = 1, deletes = 0, flushes = 0\<rparr>"
  note st = three_hits_one_miss_state
  have 1: "map_of (caches three_hits_one_miss) ''players'' =
     Some \<lparr>entries = [(''player:w1'', \<lparr>entry_value = JNum 1, expiresAt = 300\<rparr>)],
           stdTTL = 300, checkperiod = 60, maxKeys = 10000, sweeping = True\<rparr>"
    using st by (rule conjunct2 [THEN conjunct2])
  have 2: "map_of (hitStats three_hits_one_miss) ''players'' = Some ?h"
    using st by (rule conjunct1)
  have "map fst (caches three_hits_one_miss) = map fst (hitStats three_hits_one_miss)"
    using st by (rule conjunct2 [THEN conjunct1])
  then have "set (map fst (caches three_hits_one_miss)) \<subseteq> set (map fst (hitStats three_hits_one_miss))"
    by (simp only: subset_refl)
  then have 3: "fst ` set (caches three_hits_one_miss) \<subseteq> fst ` set (hitStats three_hits_one_miss)"
    by (simp only: set_map)
  from getStats_hitRate [OF 1 2 3]
  obtain stats r where a: "getStats three_hits_one_miss = Inr stats"
    and b: "map_of stats ''players'' = Some r"
    and c: "hits ?h = 3 \<and> misses ?h = 1 \<longrightarrow> hitRate r = ''75.00%''"
    by (elim exE conjE) (rule that, assumption+)
  from c have "hitRate r = ''75.00%''" by simp
  with a b show ?thesis by (intro exI conjI)
qed

end
